theory Spec2Isabelle
  imports Main "HOL-Library.Word"
begin

unbundle bit_operations_syntax

section \<open>Per-prefix statistics of memcached (stats.c)\<close>

text \<open>
  A shallow embedding of the prefix statistics of \<^verbatim>\<open>stats.c\<close>: the fixed-size hash of
  prefixes, the wildcard entry, the \<^verbatim>\<open>stats_prefix_record_*\<close> entry points,
  \<^verbatim>\<open>stats_prefix_clear\<close> and \<^verbatim>\<open>stats_prefix_dump\<close>.

  Conventions of the model.
  \<^item> The counters of an entry are machine words of the width the struct declares
    (\<open>uint64_t\<close>, \<open>uint32_t\<close>), so every \<open>++\<close>, \<open>+=\<close> and \<open>-=\<close> wraps as in C.
  \<^item> The \<open>int\<close> statics \<open>num_prefixes\<close> and \<open>total_prefix_size\<close> and the \<open>int\<close> that
    \<^verbatim>\<open>stats_prefix_dump\<close> stores in \<open>*length\<close> are 32 bits wide: the statics are 32-bit
    words read as two's complement (\<open>sint\<close>), and a \<open>size_t\<close> stored in an \<open>int\<close> keeps
    its low 32 bits. C leaves signed overflow undefined; the model takes the two's
    complement result. The size of the dump buffer is computed in the 64 bits of
    \<open>size_t\<close>, an \<open>int\<close> operand being sign-extended.
  \<^item> The length of an array in memory (a key, a stored prefix, the text written so far) is
    a natural number: such an array fits the address space, so \<open>size_t\<close> holds its length.
  \<^item> A \<open>size_t\<close> or \<open>long\<close> argument that is added to a 64-bit counter or tested as
    flags is a 64-bit word, as on an LP64 platform; the \<open>long bytes\<close> of
    \<^verbatim>\<open>stats_prefix_record_byte_total_change\<close> is its integer value, converted by the
    addition.
  \<^item> A key is the list of its \<open>nkey\<close> bytes.
  \<^item> A chain of \<open>PREFIX_STATS\<close> linked through \<open>next\<close> is the list of its nodes, head
    first.
  \<^item> \<open>GLOBAL_STATS_LOCK\<close> and \<open>GLOBAL_STATS_UNLOCK\<close> bracket every entry point; the model
    is the sequential behaviour inside the lock.
  \<^item> What stats.c takes from the rest of memcached (the delimiter setting, the hash
    function, macros of the headers, the clock, the outcome of each allocation) is a
    parameter of the model.
\<close>

subsection \<open>Data\<close>

text \<open>
  Modelled from the spec: \<^verbatim>\<open>rel_time_t\<close> is declared in memcached.h, which is absent; it is
  the type of the coarse current-time counter, taken here as C's \<open>unsigned int\<close>.
\<close>

type_synonym rel_time_t = "32 word"

text \<open>\<^verbatim>\<open>struct _prefix_stats\<close>, without \<open>next\<close> (the list structure of a chain).\<close>

record PREFIX_STATS =
  prefix :: string
  prefix_len :: nat
  num_items :: "32 word"
  last_update :: rel_time_t
  num_gets :: "64 word"
  num_hits :: "64 word"
  num_sets :: "64 word"
  num_deletes :: "64 word"
  num_evicts :: "64 word"
  num_overwrites :: "64 word"
  num_expires :: "64 word"
  num_bytes :: "64 word"
  bytes_txed :: "64 word"
  total_byte_seconds :: "64 word"

text \<open>
  An entry filled with zero bytes, as \<^verbatim>\<open>memset(.., 0, sizeof(PREFIX_STATS))\<close> and
  \<^verbatim>\<open>pool_calloc\<close> leave it; the null \<open>prefix\<close> pointer is the empty list.
\<close>

definition zero_stats :: PREFIX_STATS where
  "zero_stats =
     \<lparr>prefix = [], prefix_len = 0, num_items = 0, last_update = 0, num_gets = 0,
      num_hits = 0, num_sets = 0, num_deletes = 0, num_evicts = 0, num_overwrites = 0,
      num_expires = 0, num_bytes = 0, bytes_txed = 0, total_byte_seconds = 0\<rparr>"

definition PREFIX_HASH_SIZE :: nat where
  "PREFIX_HASH_SIZE = 256"

text \<open>
  The static variables of stats.c: the table \<open>prefix_stats\<close> (entry \<open>i\<close> is the chain of
  bucket \<open>i\<close>, for \<open>i < PREFIX_HASH_SIZE\<close>), \<open>num_prefixes\<close>, \<open>total_prefix_size\<close> and
  \<open>wildcard\<close>.
\<close>

record registry =
  prefix_stats :: "nat \<Rightarrow> PREFIX_STATS list"
  num_prefixes :: "32 word"
  total_prefix_size :: "32 word"
  wildcard :: PREFIX_STATS

text \<open>The statics as the C runtime initialises them, before any call.\<close>

definition static_registry :: registry where
  "static_registry =
     \<lparr>prefix_stats = (\<lambda>i. []), num_prefixes = 0, total_prefix_size = 0,
      wildcard = zero_stats\<rparr>"

text \<open>
  What stats.c reads from its collaborators: \<open>settings.prefix_delimiter\<close>; \<open>hash\<close> of
  assoc.c, as the function \<open>hash(key, length, 0)\<close> of the \<open>length\<close> bytes it is given;
  the macro \<open>PRINTF_INT64_MODIFIER\<close> of generic.h; the flag bits tested by
  \<^verbatim>\<open>stats_prefix_record_byte_total_change\<close> (an \<open>int\<close>) and \<^verbatim>\<open>stats_prefix_record_removal\<close>
  (a \<open>long\<close>).
\<close>

record env =
  prefix_delimiter :: char
  hash :: "string \<Rightarrow> 32 word"
  PRINTF_INT64_MODIFIER :: string
  PREFIX_INCR_ITEM_COUNT :: "32 word"
  PREFIX_IS_OVERWRITE :: "32 word"
  UNLINK_IS_EVICT :: "64 word"
  UNLINK_IS_EXPIRED :: "64 word"

text \<open>
  The outcome of the two allocations of \<^verbatim>\<open>stats_prefix_find\<close>: \<open>pool_calloc\<close> of the
  entry, then \<open>pool_malloc\<close> of the copy of the prefix.
\<close>

record pool =
  calloc_ok :: bool
  malloc_ok :: bool

text \<open>
  A pointer to an entry, as \<^verbatim>\<open>stats_prefix_find\<close> returns it: the address of \<open>wildcard\<close>, or
  a node of a chain. A node never moves and is only ever freed by
  \<^verbatim>\<open>stats_prefix_clear\<close>, and new nodes are linked at the head of their chain; so a node is
  named by its bucket and by the number of nodes that follow it in the chain.
\<close>

datatype pfs_ptr = Wildcard | Chained nat nat

fun deref :: "registry \<Rightarrow> pfs_ptr \<Rightarrow> PREFIX_STATS option" where
  "deref s Wildcard = Some (wildcard s)"
| "deref s (Chained h j) =
     (let c = prefix_stats s h
      in if j < length c then Some (c ! (length c - Suc j)) else None)"

text \<open>The statements \<open>pfs->field op= ..\<close> through a pointer \<open>pfs\<close>.\<close>

fun modify :: "pfs_ptr \<Rightarrow> (PREFIX_STATS \<Rightarrow> PREFIX_STATS) \<Rightarrow> registry \<Rightarrow> registry" where
  "modify Wildcard f s = s\<lparr>wildcard := f (wildcard s)\<rparr>"
| "modify (Chained h j) f s =
     (let c = prefix_stats s h
      in if j < length c
         then s\<lparr>prefix_stats :=
                  (prefix_stats s)(h := c[length c - Suc j := f (c ! (length c - Suc j))])\<rparr>
         else s)"

subsection \<open>Initialisation and clearing\<close>

definition stats_prefix_init :: "registry \<Rightarrow> registry" where
  "stats_prefix_init s =
     s\<lparr>prefix_stats := fold (\<lambda>i t. t(i := [])) [0..<PREFIX_HASH_SIZE] (prefix_stats s),
       wildcard := zero_stats\<rparr>"

text \<open>
  \<^verbatim>\<open>stats_prefix_clear\<close>: the inner loop frees the nodes of a chain (the pool is not part
  of the model), then the bucket is set to \<open>NULL\<close>.
\<close>

definition stats_prefix_clear :: "registry \<Rightarrow> registry" where
  "stats_prefix_clear s =
     s\<lparr>prefix_stats := fold (\<lambda>i t. t(i := [])) [0..<PREFIX_HASH_SIZE] (prefix_stats s),
       num_prefixes := 0,
       total_prefix_size := 0,
       wildcard := zero_stats\<rparr>"

subsection \<open>Finding the entry of a key\<close>

text \<open>
  The first loop of \<^verbatim>\<open>stats_prefix_find\<close>: the index of the first delimiter in the key, or
  \<open>nkey\<close> when there is none.
\<close>

fun delimiter_index :: "char \<Rightarrow> string \<Rightarrow> nat" where
  "delimiter_index d [] = 0"
| "delimiter_index d (c # cs) = (if c = d then 0 else Suc (delimiter_index d cs))"

text \<open>
  The scan of a chain for the first \<open>len\<close> bytes of \<open>key\<close>: the stored length must be
  \<open>len\<close> and \<open>memcmp\<close> over \<open>len\<close> bytes must find no difference. The result names the
  node by the number of nodes after it.
\<close>

fun chain_scan :: "string \<Rightarrow> nat \<Rightarrow> PREFIX_STATS list \<Rightarrow> nat option" where
  "chain_scan key len [] = None"
| "chain_scan key len (pfs # rest) =
     (if len = prefix_len pfs \<and> take len (prefix pfs) = take len key
      then Some (length rest)
      else chain_scan key len rest)"

definition stats_prefix_find ::
  "env \<Rightarrow> pool \<Rightarrow> string \<Rightarrow> registry \<Rightarrow> registry \<times> pfs_ptr option" where
  "stats_prefix_find e p key s =
     (let len = delimiter_index (prefix_delimiter e) key
      in if len = length key then (s, Some Wildcard)
         else
           let hashval = unat (hash e (take len key)) mod PREFIX_HASH_SIZE
           in case chain_scan key len (prefix_stats s hashval) of
                Some j \<Rightarrow> (s, Some (Chained hashval j))
              | None \<Rightarrow>
                  if \<not> calloc_ok p then (s, None)
                  else if \<not> malloc_ok p then (s, None)
                  else
                    let pfs = zero_stats\<lparr>prefix := take len key, prefix_len := len\<rparr>
                    in (s\<lparr>prefix_stats :=
                            (prefix_stats s)(hashval := pfs # prefix_stats s hashval),
                          num_prefixes := num_prefixes s + 1,
                          total_prefix_size := total_prefix_size s + word_of_nat len\<rparr>,
                        Some (Chained hashval (length (prefix_stats s hashval)))))"

subsection \<open>Recording events\<close>

text \<open>
  Each entry point calls \<^verbatim>\<open>stats_prefix_find\<close> and, when the pointer is not \<open>NULL\<close>, runs
  its body on the entry. The bodies come first, as functions of the entry.
\<close>

definition get_body :: "64 word \<Rightarrow> bool \<Rightarrow> PREFIX_STATS \<Rightarrow> PREFIX_STATS" where
  "get_body nbytes is_hit a =
     (let a = a\<lparr>num_gets := num_gets a + 1\<rparr>
      in if is_hit
         then a\<lparr>num_hits := num_hits a + 1, bytes_txed := bytes_txed a + nbytes\<rparr>
         else a)"

definition delete_body :: "PREFIX_STATS \<Rightarrow> PREFIX_STATS" where
  "delete_body a = a\<lparr>num_deletes := num_deletes a + 1\<rparr>"

definition set_body :: "PREFIX_STATS \<Rightarrow> PREFIX_STATS" where
  "set_body a = a\<lparr>num_sets := num_sets a + 1\<rparr>"

text \<open>
  \<open>bytes\<close> is a \<open>long\<close>; \<open>num_bytes += bytes\<close> converts it to \<open>uint64_t\<close>. The difference
  \<open>now - last_update\<close> is taken in \<open>rel_time_t\<close> and widened for the product.
\<close>

definition byte_total_change_body ::
  "env \<Rightarrow> rel_time_t \<Rightarrow> int \<Rightarrow> 32 word \<Rightarrow> PREFIX_STATS \<Rightarrow> PREFIX_STATS" where
  "byte_total_change_body e now bytes prefix_stats_flags a =
     (let a = (if now \<noteq> last_update a
               then a\<lparr>total_byte_seconds :=
                        total_byte_seconds a + num_bytes a * ucast (now - last_update a),
                      last_update := now\<rparr>
               else a);
          a = a\<lparr>num_bytes := num_bytes a + word_of_int bytes\<rparr>;
          a = (if prefix_stats_flags AND PREFIX_INCR_ITEM_COUNT e \<noteq> 0
               then a\<lparr>num_items := num_items a + 1\<rparr> else a)
      in if prefix_stats_flags AND PREFIX_IS_OVERWRITE e \<noteq> 0
         then a\<lparr>num_overwrites := num_overwrites a + 1\<rparr> else a)"

definition removal_body ::
  "env \<Rightarrow> rel_time_t \<Rightarrow> 64 word \<Rightarrow> 64 word \<Rightarrow> PREFIX_STATS \<Rightarrow> PREFIX_STATS" where
  "removal_body e now bytes flags a =
     (let a = (if flags AND UNLINK_IS_EVICT e \<noteq> 0
               then a\<lparr>num_evicts := num_evicts a + 1\<rparr>
               else if flags AND UNLINK_IS_EXPIRED e \<noteq> 0
               then a\<lparr>num_expires := num_expires a + 1\<rparr>
               else a);
          a = (if now \<noteq> last_update a
               then a\<lparr>total_byte_seconds :=
                        total_byte_seconds a + num_bytes a * ucast (now - last_update a),
                      last_update := now\<rparr>
               else a);
          a = a\<lparr>num_bytes := num_bytes a - bytes\<rparr>
      in a\<lparr>num_items := num_items a - 1\<rparr>)"

definition stats_prefix_record_get ::
  "env \<Rightarrow> pool \<Rightarrow> string \<Rightarrow> 64 word \<Rightarrow> bool \<Rightarrow> registry \<Rightarrow> registry" where
  "stats_prefix_record_get e p key nbytes is_hit s =
     (case stats_prefix_find e p key s of
        (s', None) \<Rightarrow> s'
      | (s', Some pfs) \<Rightarrow> modify pfs (get_body nbytes is_hit) s')"

definition stats_prefix_record_delete :: "env \<Rightarrow> pool \<Rightarrow> string \<Rightarrow> registry \<Rightarrow> registry" where
  "stats_prefix_record_delete e p key s =
     (case stats_prefix_find e p key s of
        (s', None) \<Rightarrow> s'
      | (s', Some pfs) \<Rightarrow> modify pfs delete_body s')"

definition stats_prefix_record_set :: "env \<Rightarrow> pool \<Rightarrow> string \<Rightarrow> registry \<Rightarrow> registry" where
  "stats_prefix_record_set e p key s =
     (case stats_prefix_find e p key s of
        (s', None) \<Rightarrow> s'
      | (s', Some pfs) \<Rightarrow> modify pfs set_body s')"

text \<open>\<open>now\<close> is the value of \<open>current_time\<close> that the call reads.\<close>

definition stats_prefix_record_byte_total_change ::
  "env \<Rightarrow> pool \<Rightarrow> rel_time_t \<Rightarrow> string \<Rightarrow> int \<Rightarrow> 32 word \<Rightarrow> registry \<Rightarrow> registry" where
  "stats_prefix_record_byte_total_change e p now key bytes prefix_stats_flags s =
     (case stats_prefix_find e p key s of
        (s', None) \<Rightarrow> s'
      | (s', Some pfs) \<Rightarrow>
          modify pfs (byte_total_change_body e now bytes prefix_stats_flags) s')"

text \<open>The parameter \<open>time\<close> of the C function is not used by it.\<close>

definition stats_prefix_record_removal ::
  "env \<Rightarrow> pool \<Rightarrow> rel_time_t \<Rightarrow> string \<Rightarrow> 64 word \<Rightarrow> rel_time_t \<Rightarrow> 64 word \<Rightarrow>
   registry \<Rightarrow> registry" where
  "stats_prefix_record_removal e p now key bytes time flags s =
     (case stats_prefix_find e p key s of
        (s', None) \<Rightarrow> s'
      | (s', Some pfs) \<Rightarrow> modify pfs (removal_body e now bytes flags) s')"

subsection \<open>The textual dump\<close>

definition CRLF :: string where
  "CRLF = [CHR 0x0D, CHR 0x0A]"

text \<open>The format string, for a given \<open>PRINTF_INT64_MODIFIER\<close>.\<close>

definition STATS_PREFIX_DUMP_FORMAT :: "string \<Rightarrow> string" where
  "STATS_PREFIX_DUMP_FORMAT m =
     ''PREFIX %.*s item %u get %'' @ m @ ''u hit %'' @ m @ ''u set %'' @ m @
     ''u del %'' @ m @ ''u evict %'' @ m @ ''u ov %'' @ m @ ''u exp %'' @ m @
     ''u bytes %'' @ m @ ''u txed %'' @ m @ ''u byte-seconds %'' @ m @ ''u'' @ CRLF"

definition terminator :: string where
  "terminator = ''END'' @ CRLF"

definition wildcard_name :: string where
  "wildcard_name = ''*wildcard*''"

text \<open>\<open>sizeof\<close> of a string literal or of a \<open>char\<close> array initialised by one.\<close>

definition sizeof_str :: "string \<Rightarrow> nat" where
  "sizeof_str str = length str + 1"

text \<open>The conversions of \<open>printf\<close>: an unsigned number in decimal.\<close>

fun printf_u :: "nat \<Rightarrow> string" where
  "printf_u n =
     (if n < 10 then [''0123456789'' ! n]
      else printf_u (n div 10) @ [''0123456789'' ! (n mod 10)])"

declare printf_u.simps [simp del]

text \<open>
  \<open>%.*s\<close>: at most \<open>prec\<close> bytes of the array, stopping before a zero byte. The stored
  prefix has no terminating zero; the precision is what ends it. The precision that the
  dump passes is \<open>prefix_len\<close> cast to \<open>unsigned\<close>: \<open>prefix_len\<close> itself for a prefix
  shorter than \<open>2^31\<close> bytes, and the text of a dump is only used below for such prefixes.
\<close>

definition printf_s :: "nat \<Rightarrow> string \<Rightarrow> string" where
  "printf_s prec str = takeWhile (\<lambda>c. c \<noteq> CHR 0x00) (take prec str)"

text \<open>What \<open>STATS_PREFIX_DUMP_FORMAT\<close> prints for a name and an entry.\<close>

definition format_prefix_line :: "nat \<Rightarrow> string \<Rightarrow> PREFIX_STATS \<Rightarrow> string" where
  "format_prefix_line prec name a =
     ''PREFIX '' @ printf_s prec name @
     '' item '' @ printf_u (unat (num_items a)) @
     '' get '' @ printf_u (unat (num_gets a)) @
     '' hit '' @ printf_u (unat (num_hits a)) @
     '' set '' @ printf_u (unat (num_sets a)) @
     '' del '' @ printf_u (unat (num_deletes a)) @
     '' evict '' @ printf_u (unat (num_evicts a)) @
     '' ov '' @ printf_u (unat (num_overwrites a)) @
     '' exp '' @ printf_u (unat (num_expires a)) @
     '' bytes '' @ printf_u (unat (num_bytes a)) @
     '' txed '' @ printf_u (unat (bytes_txed a)) @
     '' byte-seconds '' @ printf_u (unat (total_byte_seconds a)) @ CRLF"

text \<open>
  Modelled from the spec: \<^verbatim>\<open>append_to_buffer\<close> is defined outside stats.c. It appends the
  formatted text at \<open>offset\<close> and returns the offset after it; the text, its terminating
  zero byte and \<open>reserved\<close> further bytes must fit below \<open>size\<close>, and text that would
  overrun is left out (the output is truncated there) rather than written past the bound.
  The buffer is modelled by the bytes written so far.
\<close>

definition append_to_buffer ::
  "string \<Rightarrow> nat \<Rightarrow> nat \<Rightarrow> nat \<Rightarrow> string \<Rightarrow> string \<times> nat" where
  "append_to_buffer buf bufsize offset reserved text =
     (if offset + reserved + length text < bufsize
      then (take offset buf @ text, offset + length text)
      else (buf, offset))"

text \<open>
  The size of the buffer that \<^verbatim>\<open>stats_prefix_dump\<close> allocates. \<open>format_len\<close> is an
  \<open>int\<close>, as is \<open>11 * (20 - format_len)\<close>; \<open>strlen\<close> and \<open>sizeof\<close> are \<open>size_t\<close>, so
  the sum and the product are taken in \<open>size_t\<close>, with \<open>total_prefix_size\<close> and
  \<open>num_prefixes + 1\<close> converted from \<open>int\<close>.
\<close>

definition dump_buffer_size :: "env \<Rightarrow> registry \<Rightarrow> nat" where
  "dump_buffer_size e s =
     (let format_len =
            int (sizeof_str (''%'' @ PRINTF_INT64_MODIFIER e @ ''u'')) - int (sizeof_str [])
      in unat (scast (total_prefix_size s) +
               scast (num_prefixes s + 1) *
                 (word_of_nat (length (STATS_PREFIX_DUMP_FORMAT (PRINTF_INT64_MODIFIER e)))
                  + word_of_int (11 * (20 - format_len)))
               + word_of_nat (sizeof_str wildcard_name)
               + word_of_nat (sizeof_str terminator) :: 64 word))"

text \<open>
  The two statements that bring \<open>total_byte_seconds\<close> and \<open>last_update\<close> up to \<open>now\<close> in
  the dump (there without the test \<open>now != last_update\<close>).
\<close>

definition dump_flush :: "rel_time_t \<Rightarrow> PREFIX_STATS \<Rightarrow> PREFIX_STATS" where
  "dump_flush now a =
     a\<lparr>total_byte_seconds :=
         total_byte_seconds a + num_bytes a * ucast (now - last_update a),
       last_update := now\<rparr>"

text \<open>The inner loop of the dump, over one chain; the buffer and the offset are threaded.\<close>

fun dump_chain ::
  "rel_time_t \<Rightarrow> nat \<Rightarrow> PREFIX_STATS list \<Rightarrow> string \<times> nat \<Rightarrow>
   PREFIX_STATS list \<times> (string \<times> nat)" where
  "dump_chain now bufsize [] bo = ([], bo)"
| "dump_chain now bufsize (pfs # rest) (buf, offset) =
     (let pfs' = dump_flush now pfs;
          bo' = append_to_buffer buf bufsize offset (sizeof_str terminator)
                  (format_prefix_line (prefix_len pfs') (prefix pfs') pfs');
          (rest', bo'') = dump_chain now bufsize rest bo'
      in (pfs' # rest', bo''))"

text \<open>The outer loop, over the buckets in table order: its body for bucket \<open>i\<close>, and the loop.\<close>

definition dump_bucket ::
  "rel_time_t \<Rightarrow> nat \<Rightarrow> nat \<Rightarrow> (nat \<Rightarrow> PREFIX_STATS list) \<times> (string \<times> nat) \<Rightarrow>
   (nat \<Rightarrow> PREFIX_STATS list) \<times> (string \<times> nat)" where
  "dump_bucket now bufsize i tb =
     (let (c, bo') = dump_chain now bufsize (fst tb i) (snd tb) in ((fst tb)(i := c), bo'))"

definition dump_buckets ::
  "rel_time_t \<Rightarrow> nat \<Rightarrow> (nat \<Rightarrow> PREFIX_STATS list) \<Rightarrow> string \<times> nat \<Rightarrow>
   (nat \<Rightarrow> PREFIX_STATS list) \<times> (string \<times> nat)" where
  "dump_buckets now bufsize tbl bo =
     fold (dump_bucket now bufsize) [0..<PREFIX_HASH_SIZE] (tbl, bo)"

text \<open>
  \<^verbatim>\<open>stats_prefix_dump\<close>: \<open>malloc_succeeds\<close> is the outcome of \<open>malloc(size)\<close>, \<open>now\<close> the
  value of \<open>current_time\<close>. The result is the new state and, unless \<open>NULL\<close> is returned,
  the buffer with \<open>*length\<close>, the \<open>int\<close> that the final offset is stored in.
\<close>

definition stats_prefix_dump ::
  "env \<Rightarrow> bool \<Rightarrow> rel_time_t \<Rightarrow> registry \<Rightarrow> registry \<times> (string \<times> int) option" where
  "stats_prefix_dump e malloc_succeeds now s =
     (let bufsize = dump_buffer_size e s
      in if \<not> malloc_succeeds then (s, None)
         else
           let (tbl, bo) = dump_buckets now bufsize (prefix_stats s) ([], 0);
               w = dump_flush now (wildcard s);
               bo = (if num_gets w \<noteq> 0 \<or> num_sets w \<noteq> 0 \<or> num_deletes w \<noteq> 0
                     then append_to_buffer (fst bo) bufsize (snd bo) (sizeof_str terminator)
                            (format_prefix_line (sizeof_str wildcard_name - 1) wildcard_name w)
                     else bo);
               bo = append_to_buffer (fst bo) bufsize (snd bo) 0 terminator
           in (s\<lparr>prefix_stats := tbl, wildcard := w\<rparr>,
               Some (fst bo, sint (word_of_nat (snd bo) :: 32 word))))"

subsection \<open>Notions used by the properties\<close>

text \<open>All chained entries, in table order and within a bucket in chain order.\<close>

definition chained :: "registry \<Rightarrow> PREFIX_STATS list" where
  "chained s = concat (map (prefix_stats s) [0..<PREFIX_HASH_SIZE])"

text \<open>
  The bookkeeping of the table in the arithmetic of its two \<open>int\<close> counters: they hold the
  number of chained entries and the sum of the stored prefix lengths modulo \<open>2^32\<close>.
\<close>

definition registry_inv :: "registry \<Rightarrow> bool" where
  "registry_inv s \<longleftrightarrow>
     num_prefixes s = word_of_nat (length (chained s)) \<and>
     total_prefix_size s = word_of_nat (sum_list (map prefix_len (chained s)))"

text \<open>
  The states between public operations: the program starts with its statics
  initialised and \<^verbatim>\<open>stats_prefix_init\<close> called, and then calls the entry points with any
  arguments, clock values and allocation outcomes.
\<close>

inductive reachable :: "env \<Rightarrow> registry \<Rightarrow> bool" for e :: env where
  start: "reachable e (stats_prefix_init static_registry)"
| clear: "reachable e s \<Longrightarrow> reachable e (stats_prefix_clear s)"
| get: "reachable e s \<Longrightarrow> reachable e (stats_prefix_record_get e p key nbytes is_hit s)"
| delete: "reachable e s \<Longrightarrow> reachable e (stats_prefix_record_delete e p key s)"
| set: "reachable e s \<Longrightarrow> reachable e (stats_prefix_record_set e p key s)"
| byte_total_change:
    "reachable e s \<Longrightarrow>
     reachable e (stats_prefix_record_byte_total_change e p now key bytes fl s)"
| removal:
    "reachable e s \<Longrightarrow>
     reachable e (stats_prefix_record_removal e p now key nbytes time flags s)"
| dump: "reachable e s \<Longrightarrow> reachable e (fst (stats_prefix_dump e ok now s))"

text \<open>
  The time-weighted flush in the words of the specification: if \<open>now\<close> differs from
  \<open>last_update\<close>, add \<open>num_bytes * (now - last_update)\<close> to \<open>total_byte_seconds\<close>, then
  set \<open>last_update\<close> to \<open>now\<close>.
\<close>

definition time_weighted_flush :: "rel_time_t \<Rightarrow> PREFIX_STATS \<Rightarrow> PREFIX_STATS" where
  "time_weighted_flush now a =
     (if now \<noteq> last_update a
      then a\<lparr>total_byte_seconds :=
               total_byte_seconds a + num_bytes a * ucast (now - last_update a),
             last_update := now\<rparr>
      else a)"

text \<open>
  The text that a dump at \<open>now\<close> is to produce when nothing is cut off: one line per
  chained entry, brought up to \<open>now\<close>, in table and chain order; the wildcard line if the
  wildcard has counted a get, a set or a delete; and the terminator.
\<close>

definition entries_text :: "rel_time_t \<Rightarrow> PREFIX_STATS list \<Rightarrow> string" where
  "entries_text now c =
     concat (map (\<lambda>a. format_prefix_line (prefix_len a) (prefix a) (dump_flush now a)) c)"

definition dump_text :: "rel_time_t \<Rightarrow> registry \<Rightarrow> string" where
  "dump_text now s =
     entries_text now (chained s) @
     (if num_gets (wildcard s) \<noteq> 0 \<or> num_sets (wildcard s) \<noteq> 0 \<or>
         num_deletes (wildcard s) \<noteq> 0
      then format_prefix_line 10 wildcard_name (dump_flush now (wildcard s)) else []) @
     terminator"

text \<open>Concrete collaborators, for instances of the theorems.\<close>

definition sample_env :: env where
  "sample_env =
     \<lparr>prefix_delimiter = CHR '':'', hash = (\<lambda>p. 7),
      PRINTF_INT64_MODIFIER = ''ll'', PREFIX_INCR_ITEM_COUNT = 1, PREFIX_IS_OVERWRITE = 2,
      UNLINK_IS_EVICT = 1, UNLINK_IS_EXPIRED = 2\<rparr>"

definition pool_ok :: pool where
  "pool_ok = \<lparr>calloc_ok = True, malloc_ok = True\<rparr>"

definition pool_exhausted :: pool where
  "pool_exhausted = \<lparr>calloc_ok = False, malloc_ok = False\<rparr>"

text \<open>A key whose prefix is \<open>n\<close> bytes \<open>a\<close>, followed by the delimiter of \<open>sample_env\<close>.\<close>

definition long_key :: "nat \<Rightarrow> string" where
  "long_key n = replicate n (CHR ''a'') @ '':''"

section \<open>Properties\<close>

subsection \<open>Pointers\<close>

lemma chain_scan_less: "chain_scan key len c = Some j \<Longrightarrow> j < length c"
  by (induction c) (auto split: if_splits)

lemma find_ptr_valid:
  "stats_prefix_find e p key s = (s', Some q) \<Longrightarrow> \<exists>a. deref s' q = Some a"
  by (auto simp: stats_prefix_find_def Let_def dest: chain_scan_less
      split: if_splits option.splits)

lemma deref_modify_same: "deref s q = Some a \<Longrightarrow> deref (modify q f s) q = Some (f a)"
  by (cases q) (auto simp: Let_def split: if_splits)

lemma deref_modify_other: "q' \<noteq> q \<Longrightarrow> deref (modify q f s) q' = deref s q'"
  by (cases q; cases q') (auto simp: Let_def)

lemma modify_meta:
  "num_prefixes (modify q f s) = num_prefixes s"
  "total_prefix_size (modify q f s) = total_prefix_size s"
  by (cases q; simp add: Let_def)+

subsection \<open>The prefix of a key\<close>

lemma delimiter_index_takeWhile:
  "delimiter_index d key = length (takeWhile (\<lambda>c. c \<noteq> d) key)"
  by (induction key) auto

lemma take_delimiter_index:
  "take (delimiter_index d key) key = takeWhile (\<lambda>c. c \<noteq> d) key"
  by (induction key) auto

lemma delimiter_index_eq_length: "delimiter_index d key = length key \<longleftrightarrow> d \<notin> set key"
proof (induction key)
  case Nil
  show ?case by simp
next
  case (Cons c cs)
  have "delimiter_index d cs \<le> length cs"
    by (simp add: delimiter_index_takeWhile length_takeWhile_le)
  with Cons show ?case by auto
qed

subsection \<open>Finding\<close>

lemma chain_scan_take: "chain_scan (take len key) len c = chain_scan key len c"
  by (induction c) auto

lemma chain_scan_match:
  "chain_scan key len c = Some j \<Longrightarrow>
   prefix_len (c ! (length c - Suc j)) = len \<and>
   take len (prefix (c ! (length c - Suc j))) = take len key"
proof (induction c)
  case Nil
  then show ?case by simp
next
  case (Cons a c)
  show ?case
  proof (cases "len = prefix_len a \<and> take len (prefix a) = take len key")
    case True
    with Cons.prems show ?thesis by auto
  next
    case False
    with Cons.prems have sc: "chain_scan key len c = Some j" by auto
    then have "j < length c" by (rule chain_scan_less)
    then have "(a # c) ! (length (a # c) - Suc j) = c ! (length c - Suc j)"
      by (simp add: Suc_diff_Suc)
    with Cons.IH [OF sc] show ?thesis by simp
  qed
qed

lemma find_ptr_match:
  assumes "stats_prefix_find e p key s = (s', Some (Chained h j))"
  shows "\<exists>a. deref s' (Chained h j) = Some a \<and>
     prefix_len a = delimiter_index (prefix_delimiter e) key \<and>
     take (prefix_len a) (prefix a) = take (delimiter_index (prefix_delimiter e) key) key"
  using assms
  by (auto simp: stats_prefix_find_def Let_def zero_stats_def
      dest: chain_scan_less chain_scan_match split: if_splits option.splits)

lemma find_ptr_bucket:
  assumes "stats_prefix_find e p key s = (s', Some (Chained h j))"
  shows "h = unat (hash e (take (delimiter_index (prefix_delimiter e) key) key))
               mod PREFIX_HASH_SIZE \<and>
     chain_scan key (delimiter_index (prefix_delimiter e) key) (prefix_stats s' h) = Some j"
  using assms
  by (auto simp: stats_prefix_find_def Let_def zero_stats_def
      split: if_splits option.splits)

lemma find_found_again:
  assumes f1: "stats_prefix_find e p1 k1 s = (s1, Some q1)"
    and d1: "prefix_delimiter e \<in> set k1" and d2: "prefix_delimiter e \<in> set k2"
    and eq: "takeWhile (\<lambda>c. c \<noteq> prefix_delimiter e) k1 =
             takeWhile (\<lambda>c. c \<noteq> prefix_delimiter e) k2"
  shows "stats_prefix_find e p2 k2 s1 = (s1, Some q1)"
proof -
  let ?d = "prefix_delimiter e"
  let ?len = "delimiter_index ?d k1"
  have len: "delimiter_index ?d k2 = ?len"
    using eq by (simp add: delimiter_index_takeWhile)
  have tk: "take ?len k2 = take ?len k1"
    using eq len by (metis take_delimiter_index)
  have n1: "?len \<noteq> length k1"
    using d1 by (simp add: delimiter_index_eq_length)
  have n2: "?len \<noteq> length k2"
    using d2 len by (metis delimiter_index_eq_length)
  from f1 n1 obtain h j where q1: "q1 = Chained h j"
    by (auto simp: stats_prefix_find_def Let_def split: if_splits option.splits)
  from find_ptr_bucket [OF f1 [unfolded q1]]
  have h: "h = unat (hash e (take ?len k1)) mod PREFIX_HASH_SIZE"
    and sc: "chain_scan k1 ?len (prefix_stats s1 h) = Some j"
    by blast+
  have "chain_scan k2 ?len (prefix_stats s1 h) =
        chain_scan (take ?len k2) ?len (prefix_stats s1 h)"
    by (simp add: chain_scan_take)
  also have "\<dots> = Some j"
    using sc by (simp add: tk chain_scan_take)
  finally have "chain_scan k2 ?len (prefix_stats s1 h) = Some j" .
  then show ?thesis
    using n2 h by (simp add: stats_prefix_find_def Let_def len tk q1)
qed

lemma find_other_distinct:
  assumes f1: "stats_prefix_find e p1 k1 s = (s1, Some q1)"
    and f2: "stats_prefix_find e p2 k2 s1 = (s2, Some q2)"
    and d1: "prefix_delimiter e \<in> set k1" and d2: "prefix_delimiter e \<in> set k2"
    and ne: "takeWhile (\<lambda>c. c \<noteq> prefix_delimiter e) k1 \<noteq>
             takeWhile (\<lambda>c. c \<noteq> prefix_delimiter e) k2"
  shows "q2 \<noteq> q1"
proof
  assume same: "q2 = q1"
  let ?d = "prefix_delimiter e"
  have n1: "delimiter_index ?d k1 \<noteq> length k1"
    using d1 by (simp add: delimiter_index_eq_length)
  from f1 n1 obtain h j where q1: "q1 = Chained h j"
    by (auto simp: stats_prefix_find_def Let_def split: if_splits option.splits)
  from find_ptr_match [OF f1 [unfolded q1]] obtain a where
    a: "deref s1 (Chained h j) = Some a" "prefix_len a = delimiter_index ?d k1"
       "take (prefix_len a) (prefix a) = take (delimiter_index ?d k1) k1"
    by blast
  from a(1) have j: "j < length (prefix_stats s1 h)"
    and a_def: "a = prefix_stats s1 h ! (length (prefix_stats s1 h) - Suc j)"
    by (auto simp: Let_def split: if_splits)
  have n2: "delimiter_index ?d k2 \<noteq> length k2"
    using d2 by (simp add: delimiter_index_eq_length)
  let ?len2 = "delimiter_index ?d k2"
  let ?h2 = "unat (hash e (take ?len2 k2)) mod PREFIX_HASH_SIZE"
  show False
  proof (cases "chain_scan k2 ?len2 (prefix_stats s1 ?h2)")
    case None
    with f2 n2 have "q2 = Chained ?h2 (length (prefix_stats s1 ?h2))"
      by (auto simp: stats_prefix_find_def Let_def split: if_splits)
    with same q1 have "j = length (prefix_stats s1 h)" by auto
    with j show False by simp
  next
    case (Some j2)
    with f2 n2 have q2: "q2 = Chained ?h2 j2"
      by (auto simp: stats_prefix_find_def Let_def split: if_splits)
    with same q1 have hj: "?h2 = h" "j2 = j" by simp_all
    from chain_scan_match [OF Some] hj a_def
    have "prefix_len a = ?len2" "take ?len2 (prefix a) = take ?len2 k2" by simp_all
    with a have "take (delimiter_index ?d k1) k1 = take ?len2 k2" by simp
    with ne show False by (simp add: take_delimiter_index)
  qed
qed

lemma find_cases:
  assumes f: "stats_prefix_find e p key s = (s', r)"
  obtains (same) "s' = s"
  | (created) h where
      "chain_scan key (delimiter_index (prefix_delimiter e) key) (prefix_stats s h) = None"
      "h < PREFIX_HASH_SIZE"
      "r = Some (Chained h (length (prefix_stats s h)))"
      "s' = s\<lparr>prefix_stats :=
                 (prefix_stats s)
                 (h := zero_stats\<lparr>prefix := take (delimiter_index (prefix_delimiter e) key) key,
                                  prefix_len := delimiter_index (prefix_delimiter e) key\<rparr>
                       # prefix_stats s h),
               num_prefixes := num_prefixes s + 1,
               total_prefix_size :=
                 total_prefix_size s + word_of_nat (delimiter_index (prefix_delimiter e) key)\<rparr>"
proof -
  let ?len = "delimiter_index (prefix_delimiter e) key"
  let ?h = "unat (hash e (take ?len key)) mod PREFIX_HASH_SIZE"
  have hlt: "?h < PREFIX_HASH_SIZE"
    by (simp add: PREFIX_HASH_SIZE_def)
  show thesis
  proof (cases "?len = length key")
    case True
    with f have "s' = s" by (simp add: stats_prefix_find_def)
    then show thesis by (rule same)
  next
    case nowild: False
    show thesis
    proof (cases "chain_scan key ?len (prefix_stats s ?h)")
      case (Some j)
      with f nowild have "s' = s" by (simp add: stats_prefix_find_def Let_def)
      then show thesis by (rule same)
    next
      case None
      show thesis
      proof (cases "calloc_ok p \<and> malloc_ok p")
        case False
        with f nowild None have "s' = s"
          by (auto simp: stats_prefix_find_def Let_def split: if_splits)
        then show thesis by (rule same)
      next
        case True
        with f nowild None have
          "r = Some (Chained ?h (length (prefix_stats s ?h)))"
          "s' = s\<lparr>prefix_stats :=
                 (prefix_stats s)
                 (?h := zero_stats\<lparr>prefix := take ?len key, prefix_len := ?len\<rparr>
                       # prefix_stats s ?h),
               num_prefixes := num_prefixes s + 1,
               total_prefix_size := total_prefix_size s + word_of_nat ?len\<rparr>"
          by (simp_all add: stats_prefix_find_def Let_def)
        with None hlt show thesis by (rule created)
      qed
    qed
  qed
qed

lemma find_keeps_entries:
  assumes "stats_prefix_find e p key s = (s', r)" and "deref s q = Some a"
  shows "deref s' q = Some a"
  using assms(1)
proof (cases rule: find_cases)
  case same
  with assms show ?thesis by simp
next
  case (created h)
  show ?thesis
  proof (cases q)
    case Wildcard
    with assms(2) created show ?thesis by simp
  next
    case (Chained h' j)
    with assms(2) have "j < length (prefix_stats s h')"
      and "a = prefix_stats s h' ! (length (prefix_stats s h') - Suc j)"
      by (auto simp: Let_def split: if_splits)
    with created(4) Chained show ?thesis by (auto simp: Let_def Suc_diff_Suc)
  qed
qed

text \<open>
  C3. Keys that contain the delimiter and agree on the bytes before its first occurrence
  are resolved to the same entry: once \<^verbatim>\<open>stats_prefix_find\<close> has returned a pointer for
  \<open>k1\<close>, it returns that very pointer for \<open>k2\<close>, creating nothing, whatever the allocator
  would do. A key \<open>k3\<close> whose bytes before the delimiter differ (in length or in any
  byte, so also when they are a proper beginning of those of \<open>k1\<close>) is resolved to another
  pointer, and the entry of \<open>k1\<close> is still there, untouched, and still the one found.
\<close>

theorem find_same_prefix:
  assumes "stats_prefix_find e p1 k1 s = (s1, Some q1)"
    and "prefix_delimiter e \<in> set k1"
    and "prefix_delimiter e \<in> set k2"
    and "prefix_delimiter e \<in> set k3"
    and "takeWhile (\<lambda>c. c \<noteq> prefix_delimiter e) k1 =
         takeWhile (\<lambda>c. c \<noteq> prefix_delimiter e) k2"
    and "takeWhile (\<lambda>c. c \<noteq> prefix_delimiter e) k1 \<noteq>
         takeWhile (\<lambda>c. c \<noteq> prefix_delimiter e) k3"
    and "stats_prefix_find e p3 k3 s1 = (s3, Some q3)"
  shows "stats_prefix_find e p2 k2 s1 = (s1, Some q1) \<and>
         q3 \<noteq> q1 \<and>
         deref s3 q1 = deref s1 q1 \<and>
         stats_prefix_find e p2 k2 s3 = (s3, Some q1)"
proof (intro conjI)
  from assms(1,2,3,5) show "stats_prefix_find e p2 k2 s1 = (s1, Some q1)"
    by (rule find_found_again)
  from assms(1,7,2,4,6) show "q3 \<noteq> q1"
    by (rule find_other_distinct)
  from find_ptr_valid [OF assms(1)] obtain a where "deref s1 q1 = Some a" ..
  with find_keeps_entries [OF assms(7)] show "deref s3 q1 = deref s1 q1"
    by simp
  have "stats_prefix_find e p1 k1 s3 = (s3, Some q1)"
  proof -
    have "stats_prefix_find e p1 k1 s1 = (s1, Some q1)"
      using assms(1,2,2) refl by (rule find_found_again)
    then obtain h j where q1: "q1 = Chained h j"
      using assms(2)
      by (auto simp: stats_prefix_find_def Let_def delimiter_index_eq_length
          split: if_splits option.splits)
    from assms(7) show ?thesis
    proof (cases rule: find_cases)
      case same
      with \<open>stats_prefix_find e p1 k1 s1 = (s1, Some q1)\<close> show ?thesis by simp
    next
      case (created h3)
      let ?d = "prefix_delimiter e"
      let ?len = "delimiter_index ?d k1"
      from find_ptr_bucket [OF assms(1) [unfolded q1]]
      have h: "h = unat (hash e (take ?len k1)) mod PREFIX_HASH_SIZE"
        and sc: "chain_scan k1 ?len (prefix_stats s1 h) = Some j"
        by blast+
      have n1: "?len \<noteq> length k1"
        using assms(2) by (simp add: delimiter_index_eq_length)
      have differ: "\<not> (?len = delimiter_index ?d k3 \<and>
                       take ?len (take (delimiter_index ?d k3) k3) = take ?len k1)"
      proof
        assume "?len = delimiter_index ?d k3 \<and>
                take ?len (take (delimiter_index ?d k3) k3) = take ?len k1"
        then have eq: "?len = delimiter_index ?d k3"
          and tk: "take ?len (take (delimiter_index ?d k3) k3) = take ?len k1"
          by blast+
        from tk have "take ?len k3 = take ?len k1"
          unfolding eq [symmetric] by simp
        then have "take (delimiter_index ?d k3) k3 = take ?len k1"
          using eq by simp
        with assms(6) show False
          by (simp add: take_delimiter_index)
      qed
      have "chain_scan k1 ?len (prefix_stats s3 h) = Some j"
        using sc created differ by (auto simp: zero_stats_def)
      with n1 h show ?thesis
        by (simp add: stats_prefix_find_def Let_def q1)
    qed
  qed
  from this assms(2,3,5) show "stats_prefix_find e p2 k2 s3 = (s3, Some q1)"
    by (rule find_found_again)
qed

theorem find_same_prefix_witness:
  "stats_prefix_find sample_env pool_exhausted ''abc:456''
     (fst (stats_prefix_find sample_env pool_ok ''abc:123'' static_registry)) =
   (fst (stats_prefix_find sample_env pool_ok ''abc:123'' static_registry),
    Some (Chained 7 0)) \<and>
   Chained 7 1 \<noteq> Chained 7 0"
proof -
  let ?s1 = "fst (stats_prefix_find sample_env pool_ok ''abc:123'' static_registry)"
  let ?s3 = "fst (stats_prefix_find sample_env pool_ok ''ab:123'' ?s1)"
  have f1: "stats_prefix_find sample_env pool_ok ''abc:123'' static_registry =
            (?s1, Some (Chained 7 0))"
    by (simp add: stats_prefix_find_def sample_env_def pool_ok_def static_registry_def
        PREFIX_HASH_SIZE_def Let_def)
  have f3: "stats_prefix_find sample_env pool_ok ''ab:123'' ?s1 = (?s3, Some (Chained 7 1))"
    by (simp add: stats_prefix_find_def sample_env_def pool_ok_def static_registry_def
        PREFIX_HASH_SIZE_def Let_def zero_stats_def)
  have d: "prefix_delimiter sample_env \<in> set ''abc:123''"
    "prefix_delimiter sample_env \<in> set ''abc:456''"
    "prefix_delimiter sample_env \<in> set ''ab:123''"
    by (simp_all add: sample_env_def)
  have e: "takeWhile (\<lambda>c. c \<noteq> prefix_delimiter sample_env) ''abc:123'' =
           takeWhile (\<lambda>c. c \<noteq> prefix_delimiter sample_env) ''abc:456''"
    by (simp add: sample_env_def)
  have n: "takeWhile (\<lambda>c. c \<noteq> prefix_delimiter sample_env) ''abc:123'' \<noteq>
           takeWhile (\<lambda>c. c \<noteq> prefix_delimiter sample_env) ''ab:123''"
    by (simp add: sample_env_def)
  from find_same_prefix [OF f1 d e n f3, of pool_exhausted] show ?thesis
    by blast
qed

text \<open>
  C4. A key without the delimiter is resolved to the wildcard entry, whatever its bytes:
  \<^verbatim>\<open>stats_prefix_find\<close> returns the address of \<open>wildcard\<close> and the state it was given (the
  table, \<open>num_prefixes\<close> and \<open>total_prefix_size\<close> included), whatever the allocator would
  have answered, since it is not asked.
\<close>

theorem find_no_delimiter:
  "prefix_delimiter e \<notin> set key \<Longrightarrow> stats_prefix_find e p key s = (s, Some Wildcard)"
  by (simp add: stats_prefix_find_def delimiter_index_eq_length)

theorem find_no_delimiter_witness:
  "stats_prefix_find sample_env pool_exhausted ''abc123'' static_registry =
   (static_registry, Some Wildcard)"
  by (rule find_no_delimiter) (simp add: sample_env_def)

subsection \<open>Recording\<close>

text \<open>
  C7. For the entry that \<^verbatim>\<open>stats_prefix_find\<close> returns for the key:
  \<^verbatim>\<open>stats_prefix_record_get\<close> with \<open>is_hit\<close> false adds 1 to \<open>num_gets\<close> and changes no other
  field; with \<open>is_hit\<close> true it adds 1 to \<open>num_gets\<close>, 1 to \<open>num_hits\<close> and \<open>nbytes\<close> to
  \<open>bytes_txed\<close> and changes no other field. In both cases \<open>num_bytes\<close>,
  \<open>total_byte_seconds\<close> and \<open>last_update\<close> are among the fields left as they were.
\<close>

theorem record_get_counts:
  assumes "stats_prefix_find e p key s = (s1, Some pfs)"
  shows "\<exists>a. deref s1 pfs = Some a \<and>
     deref (stats_prefix_record_get e p key n False s) pfs =
       Some (a\<lparr>num_gets := num_gets a + 1\<rparr>) \<and>
     deref (stats_prefix_record_get e p key n True s) pfs =
       Some (a\<lparr>num_gets := num_gets a + 1, num_hits := num_hits a + 1,
               bytes_txed := bytes_txed a + n\<rparr>)"
proof -
  from find_ptr_valid [OF assms] obtain a where a: "deref s1 pfs = Some a" ..
  have "deref (stats_prefix_record_get e p key n h s) pfs = Some (get_body n h a)" for h
    using assms a by (simp add: stats_prefix_record_get_def deref_modify_same)
  then show ?thesis
    using a by (auto simp: get_body_def)
qed

theorem record_get_counts_witness:
  "\<exists>a. deref (fst (stats_prefix_find sample_env pool_ok ''abc:123'' static_registry))
          (Chained 7 0) = Some a \<and>
     deref (stats_prefix_record_get sample_env pool_ok ''abc:123'' 5 False static_registry)
          (Chained 7 0) = Some (a\<lparr>num_gets := num_gets a + 1\<rparr>) \<and>
     deref (stats_prefix_record_get sample_env pool_ok ''abc:123'' 5 True static_registry)
          (Chained 7 0) =
       Some (a\<lparr>num_gets := num_gets a + 1, num_hits := num_hits a + 1,
               bytes_txed := bytes_txed a + 5\<rparr>)"
proof -
  have "stats_prefix_find sample_env pool_ok ''abc:123'' static_registry =
        (fst (stats_prefix_find sample_env pool_ok ''abc:123'' static_registry),
         Some (Chained 7 0))"
    by (simp add: stats_prefix_find_def sample_env_def pool_ok_def static_registry_def
        PREFIX_HASH_SIZE_def Let_def)
  then show ?thesis
    by (rule record_get_counts)
qed

lemma record_removal_entry:
  "stats_prefix_find e p key s = (s1, Some pfs) \<Longrightarrow> deref s1 pfs = Some a \<Longrightarrow>
   deref (stats_prefix_record_removal e p now key bytes time flags s) pfs =
     Some (removal_body e now bytes flags a)"
  by (simp add: stats_prefix_record_removal_def deref_modify_same)

lemma removal_body_fields:
  "num_bytes (removal_body e now bytes flags a) = num_bytes a - bytes"
  "num_items (removal_body e now bytes flags a) = num_items a - 1"
  by (simp_all add: removal_body_def Let_def)

text \<open>
  C10. \<^verbatim>\<open>stats_prefix_record_removal\<close> subtracts \<open>bytes\<close> from the 64-bit \<open>num_bytes\<close> and 1
  from the 32-bit \<open>num_items\<close> of the entry, with no guard: when \<open>bytes\<close> exceeds
  \<open>num_bytes\<close> the result is \<open>num_bytes + 2^64 - bytes\<close>, and when \<open>num_items\<close> is 0 the
  result is \<open>2^32 - 1\<close>.
\<close>

theorem record_removal_wraps:
  assumes "stats_prefix_find e p key s = (s1, Some pfs)"
  shows "\<exists>a a'. deref s1 pfs = Some a \<and>
     deref (stats_prefix_record_removal e p now key bytes time flags s) pfs = Some a' \<and>
     num_bytes a' = num_bytes a - bytes \<and>
     num_items a' = num_items a - 1 \<and>
     (unat (num_bytes a) < unat bytes \<longrightarrow>
        unat (num_bytes a') = unat (num_bytes a) + 2 ^ 64 - unat bytes) \<and>
     (num_items a = 0 \<longrightarrow> unat (num_items a') = 2 ^ 32 - 1)"
proof -
  from find_ptr_valid [OF assms] obtain a where a: "deref s1 pfs = Some a" ..
  let ?a' = "removal_body e now bytes flags a"
  have d: "deref (stats_prefix_record_removal e p now key bytes time flags s) pfs = Some ?a'"
    using assms a by (rule record_removal_entry)
  have b: "unat (num_bytes a) < unat bytes \<longrightarrow>
           unat (num_bytes ?a') = unat (num_bytes a) + 2 ^ 64 - unat bytes"
    by (simp add: removal_body_fields unat_sub_if_size word_size)
  have i: "num_items a = 0 \<longrightarrow> unat (num_items ?a') = 2 ^ 32 - 1"
    by (simp add: removal_body_fields unsigned_minus_1_eq_mask mask_eq_exp_minus_1)
  from a d b i show ?thesis
    by (intro exI [of _ a] exI [of _ ?a']) (simp add: removal_body_fields)
qed

theorem record_removal_wraps_witness:
  "\<exists>a'. deref (stats_prefix_record_removal sample_env pool_ok 3 ''abc:123'' 7 0 1
                 static_registry) (Chained 7 0) = Some a' \<and>
     unat (num_bytes a') = 18446744073709551609 \<and>
     unat (num_items a') = 4294967295"
proof -
  let ?s1 = "fst (stats_prefix_find sample_env pool_ok ''abc:123'' static_registry)"
  have f: "stats_prefix_find sample_env pool_ok ''abc:123'' static_registry =
           (?s1, Some (Chained 7 0))"
    by (simp add: stats_prefix_find_def sample_env_def pool_ok_def static_registry_def
        PREFIX_HASH_SIZE_def Let_def)
  have z: "deref ?s1 (Chained 7 0) = Some (zero_stats\<lparr>prefix := ''abc'', prefix_len := 3\<rparr>)"
    by (simp add: stats_prefix_find_def sample_env_def pool_ok_def static_registry_def
        PREFIX_HASH_SIZE_def Let_def)
  from record_removal_wraps [OF f, of 3 7 0 1] z show ?thesis
    by (auto simp: zero_stats_def)
qed

subsection \<open>The table as a list of chains\<close>

lemma upt_split:
  assumes "h < n"
  shows "[0..<n] = [0..<h] @ h # [Suc h..<n]"
proof -
  from assms obtain k where n: "n = h + k" and k: "0 < k"
    by (metis less_imp_add_positive)
  have "[0..<h + k] = [0..<h] @ [h..<h + k]"
    by (rule upt_add_eq_append) simp
  also have "[h..<h + k] = h # [Suc h..<h + k]"
    using k by (simp add: upt_conv_Cons)
  finally show ?thesis
    by (simp add: n)
qed

lemma map_upd_outside: "h \<notin> set xs \<Longrightarrow> map (t(h := c)) xs = map t xs"
  by (induction xs) auto

lemma chained_split:
  assumes "h < PREFIX_HASH_SIZE"
  shows "chained s =
     concat (map (prefix_stats s) [0..<h]) @ prefix_stats s h @
     concat (map (prefix_stats s) [Suc h..<PREFIX_HASH_SIZE])"
  by (simp add: chained_def upt_split [OF assms])

lemma chained_upd:
  assumes "h < PREFIX_HASH_SIZE"
  shows "chained (s\<lparr>prefix_stats := (prefix_stats s)(h := c)\<rparr>) =
     concat (map (prefix_stats s) [0..<h]) @ c @
     concat (map (prefix_stats s) [Suc h..<PREFIX_HASH_SIZE])"
  by (simp add: chained_def upt_split [OF assms] map_upd_outside)

lemma chained_upd_outside:
  assumes "\<not> h < PREFIX_HASH_SIZE"
  shows "chained (s\<lparr>prefix_stats := (prefix_stats s)(h := c)\<rparr>) = chained s"
  using assms by (simp add: chained_def map_upd_outside)

lemma fold_empty_buckets:
  "fold (\<lambda>i t. t(i := [])) [0..<n] t = (\<lambda>i. if i < n then [] else t i)"
  by (induction n) (auto simp: fun_eq_iff)

lemma chained_clear: "chained (stats_prefix_clear s) = []"
  by (simp add: chained_def stats_prefix_clear_def fold_empty_buckets)

lemma init_static: "stats_prefix_init static_registry = static_registry"
  by (simp add: stats_prefix_init_def static_registry_def fold_empty_buckets)

lemma chained_static: "chained static_registry = []"
  by (simp add: chained_def static_registry_def)

subsection \<open>What the dump does to the entries\<close>

lemma dump_chain_entries: "fst (dump_chain now sz c bo) = map (dump_flush now) c"
proof (induction c arbitrary: bo)
  case Nil
  show ?case by simp
next
  case (Cons a c)
  obtain buf off where bo: "bo = (buf, off)" by (cases bo)
  show ?case
    using Cons.IH by (simp add: bo Let_def split: prod.split) (metis fst_conv)
qed

lemma dump_bucket_entries:
  "fst (dump_bucket now sz i tb) = (fst tb)(i := map (dump_flush now) (fst tb i))"
  by (simp add: dump_bucket_def case_prod_beta dump_chain_entries)

lemma dump_buckets_entries_upto:
  "fst (fold (dump_bucket now sz) [0..<n] (tbl, bo)) =
   (\<lambda>i. if i < n then map (dump_flush now) (tbl i) else tbl i)"
proof (induction n)
  case 0
  show ?case by simp
next
  case (Suc n)
  then show ?case
    by (auto simp: dump_bucket_entries fun_eq_iff)
qed

lemma dump_buckets_entries:
  "fst (dump_buckets now sz tbl bo) =
   (\<lambda>i. if i < PREFIX_HASH_SIZE then map (dump_flush now) (tbl i) else tbl i)"
  by (simp add: dump_buckets_def dump_buckets_entries_upto)

lemma dump_state:
  "fst (stats_prefix_dump e True now s) =
   s\<lparr>prefix_stats :=
       (\<lambda>i. if i < PREFIX_HASH_SIZE then map (dump_flush now) (prefix_stats s i)
            else prefix_stats s i),
     wildcard := dump_flush now (wildcard s)\<rparr>"
  by (simp add: stats_prefix_dump_def Let_def case_prod_beta dump_buckets_entries)

lemma dump_state_failed: "stats_prefix_dump e False now s = (s, None)"
  by (simp add: stats_prefix_dump_def)

lemma chained_dump:
  "chained (fst (stats_prefix_dump e True now s)) = map (dump_flush now) (chained s)"
proof -
  have h: "map (\<lambda>i. if i < PREFIX_HASH_SIZE then map (dump_flush now) (prefix_stats s i)
                     else prefix_stats s i) [0..<PREFIX_HASH_SIZE] =
           map (\<lambda>i. map (dump_flush now) (prefix_stats s i)) [0..<PREFIX_HASH_SIZE]"
    by (rule map_cong) simp_all
  have "chained (fst (stats_prefix_dump e True now s)) =
        concat (map (\<lambda>i. if i < PREFIX_HASH_SIZE then map (dump_flush now) (prefix_stats s i)
                          else prefix_stats s i) [0..<PREFIX_HASH_SIZE])"
    by (simp add: dump_state chained_def)
  also have "\<dots> = concat (map (\<lambda>i. map (dump_flush now) (prefix_stats s i))
                           [0..<PREFIX_HASH_SIZE])"
    by (simp only: h)
  also have "\<dots> = map (dump_flush now) (chained s)"
    by (simp add: chained_def map_concat comp_def)
  finally show ?thesis .
qed

lemma dump_flush_flush: "dump_flush now = time_weighted_flush now"
  by (rule ext) (simp add: dump_flush_def time_weighted_flush_def)

subsection \<open>The bookkeeping of the table\<close>

lemma chained_wildcard_upd: "chained (s\<lparr>wildcard := w\<rparr>) = chained s"
  by (simp add: chained_def)

lemma modify_chained:
  assumes f: "\<And>x. prefix_len (f x) = prefix_len x"
  shows "length (chained (modify q f s)) = length (chained s) \<and>
         map prefix_len (chained (modify q f s)) = map prefix_len (chained s)"
proof (cases q)
  case Wildcard
  then show ?thesis by (simp add: chained_wildcard_upd)
next
  case (Chained h j)
  let ?c = "prefix_stats s h"
  let ?i = "length ?c - Suc j"
  show ?thesis
  proof (cases "j < length ?c")
    case False
    with Chained show ?thesis by simp
  next
    case True
    then have i: "?i < length ?c" by simp
    have m: "modify q f s = s\<lparr>prefix_stats := (prefix_stats s)(h := ?c[?i := f (?c ! ?i)])\<rparr>"
      using True Chained by (simp add: Let_def)
    have p: "map prefix_len (?c[?i := f (?c ! ?i)]) = map prefix_len ?c"
      using i by (simp add: map_update f list_update_same_conv)
    show ?thesis
    proof (cases "h < PREFIX_HASH_SIZE")
      case True
      then show ?thesis
        by (simp only: m chained_upd chained_split [OF True, of s]) (simp add: p)
    next
      case False
      then show ?thesis
        by (simp add: m chained_upd_outside)
    qed
  qed
qed

lemma modify_inv:
  assumes "\<And>x. prefix_len (f x) = prefix_len x" and "registry_inv s"
  shows "registry_inv (modify q f s)"
  using modify_chained [OF assms(1), of q s] assms(2)
  by (simp add: registry_inv_def modify_meta)

lemma body_prefix_len:
  "prefix_len (get_body n h a) = prefix_len a"
  "prefix_len (delete_body a) = prefix_len a"
  "prefix_len (set_body a) = prefix_len a"
  "prefix_len (byte_total_change_body e now bytes fl a) = prefix_len a"
  "prefix_len (removal_body e now nbytes flags a) = prefix_len a"
  "prefix_len (dump_flush now a) = prefix_len a"
  by (simp_all add: get_body_def delete_body_def set_body_def byte_total_change_body_def
      removal_body_def dump_flush_def Let_def)

lemma find_created_chained:
  assumes "h < PREFIX_HASH_SIZE"
  shows "length (chained (s\<lparr>prefix_stats := (prefix_stats s)(h := a # prefix_stats s h),
                            num_prefixes := n, total_prefix_size := z\<rparr>)) =
           Suc (length (chained s))"
    and "sum_list (map prefix_len
           (chained (s\<lparr>prefix_stats := (prefix_stats s)(h := a # prefix_stats s h),
                       num_prefixes := n, total_prefix_size := z\<rparr>))) =
           prefix_len a + sum_list (map prefix_len (chained s))"
proof -
  have "chained (s\<lparr>prefix_stats := (prefix_stats s)(h := a # prefix_stats s h),
                   num_prefixes := n, total_prefix_size := z\<rparr>) =
        chained (s\<lparr>prefix_stats := (prefix_stats s)(h := a # prefix_stats s h)\<rparr>)"
    by (simp add: chained_def)
  then show
    "length (chained (s\<lparr>prefix_stats := (prefix_stats s)(h := a # prefix_stats s h),
                            num_prefixes := n, total_prefix_size := z\<rparr>)) =
           Suc (length (chained s))"
    "sum_list (map prefix_len
           (chained (s\<lparr>prefix_stats := (prefix_stats s)(h := a # prefix_stats s h),
                       num_prefixes := n, total_prefix_size := z\<rparr>))) =
           prefix_len a + sum_list (map prefix_len (chained s))"
    by (simp_all only: chained_upd [OF assms] chained_split [OF assms, of s])
       simp_all
qed

lemma find_inv:
  assumes "stats_prefix_find e p key s = (s', r)" and "registry_inv s"
  shows "registry_inv s'"
  using assms(1)
proof (cases rule: find_cases)
  case same
  with assms(2) show ?thesis by simp
next
  case (created h)
  from assms(2) show ?thesis
    unfolding created(4) registry_inv_def
    by (simp add: find_created_chained [OF created(2)] zero_stats_def)
qed

lemma record_inv:
  assumes "registry_inv s"
  shows "registry_inv (stats_prefix_record_get e p key n hit s)"
    and "registry_inv (stats_prefix_record_delete e p key s)"
    and "registry_inv (stats_prefix_record_set e p key s)"
    and "registry_inv (stats_prefix_record_byte_total_change e p now key bytes fl s)"
    and "registry_inv (stats_prefix_record_removal e p now key nbytes time flags s)"
proof -
  obtain s' r where f: "stats_prefix_find e p key s = (s', r)"
    by (cases "stats_prefix_find e p key s")
  from f assms have i: "registry_inv s'" by (rule find_inv)
  show "registry_inv (stats_prefix_record_get e p key n hit s)"
    using i by (cases r) (simp_all add: stats_prefix_record_get_def f modify_inv body_prefix_len)
  show "registry_inv (stats_prefix_record_delete e p key s)"
    using i by (cases r) (simp_all add: stats_prefix_record_delete_def f modify_inv body_prefix_len)
  show "registry_inv (stats_prefix_record_set e p key s)"
    using i by (cases r) (simp_all add: stats_prefix_record_set_def f modify_inv body_prefix_len)
  show "registry_inv (stats_prefix_record_byte_total_change e p now key bytes fl s)"
    using i by (cases r)
      (simp_all add: stats_prefix_record_byte_total_change_def f modify_inv body_prefix_len)
  show "registry_inv (stats_prefix_record_removal e p now key nbytes time flags s)"
    using i by (cases r)
      (simp_all add: stats_prefix_record_removal_def f modify_inv body_prefix_len)
qed

lemma clear_inv: "registry_inv (stats_prefix_clear s)"
  by (simp add: registry_inv_def chained_clear) (simp add: stats_prefix_clear_def)

lemma static_inv: "registry_inv (stats_prefix_init static_registry)"
  by (simp add: init_static registry_inv_def chained_static) (simp add: static_registry_def)

lemma dump_inv:
  assumes "registry_inv s"
  shows "registry_inv (fst (stats_prefix_dump e ok now s))"
proof (cases ok)
  case False
  with assms show ?thesis by (simp add: dump_state_failed)
next
  case True
  have "num_prefixes (fst (stats_prefix_dump e True now s)) = num_prefixes s"
    "total_prefix_size (fst (stats_prefix_dump e True now s)) = total_prefix_size s"
    by (simp_all add: dump_state)
  with assms True show ?thesis
    by (simp add: registry_inv_def chained_dump comp_def body_prefix_len)
qed

lemma reachable_inv: "reachable e s \<Longrightarrow> registry_inv s"
proof (induction rule: reachable.induct)
  case start
  show ?case by (rule static_inv)
next
  case (clear s)
  show ?case by (rule clear_inv)
next
  case (get s p key nbytes is_hit)
  from get.IH show ?case by (rule record_inv)
next
  case (delete s p key)
  from delete.IH show ?case by (rule record_inv)
next
  case (set s p key)
  from set.IH show ?case by (rule record_inv)
next
  case (byte_total_change s p now key bytes fl)
  from byte_total_change.IH show ?case by (rule record_inv)
next
  case (removal s p now key nbytes time flags)
  from removal.IH show ?case by (rule record_inv)
next
  case (dump s ok now)
  from dump.IH show ?case by (rule dump_inv)
qed

subsection \<open>Reading the 32-bit counters\<close>

lemma sint_of_nat_small: "n < 2 ^ 31 \<Longrightarrow> sint (word_of_nat n :: 32 word) = int n"
  by (simp add: signed_of_nat signed_take_bit_int_eq_self)

lemma sint_32_less: "sint (w :: 32 word) < 2 ^ 31"
  using sint_less [of w] by simp

lemma scast_of_nat_small:
  "n < 2 ^ 31 \<Longrightarrow> (scast (word_of_nat n :: 32 word) :: 64 word) = word_of_nat n"
  by (simp add: scast_eq sint_of_nat_small)

lemma unat_of_nat_64: "n < 2 ^ 64 \<Longrightarrow> unat (word_of_nat n :: 64 word) = n"
  by (simp add: unat_of_nat)

subsection \<open>The first entry of an empty table\<close>

lemma delimiter_index_append:
  "d \<notin> set pre \<Longrightarrow> delimiter_index d (pre @ d # rest) = length pre"
  by (induction pre) auto

lemma concat_map_Nil: "concat (map (\<lambda>i. []) xs) = []"
  by (induction xs) simp_all

lemma concat_single_bucket:
  "h < n \<Longrightarrow> concat (map ((\<lambda>i. [])(h := c)) [0..<n]) = c"
  by (simp add: upt_split [of h n] map_upd_outside concat_map_Nil)

lemma record_set_fresh:
  assumes "prefix_delimiter e \<notin> set pre" and "calloc_ok p" and "malloc_ok p"
  shows "stats_prefix_record_set e p (pre @ prefix_delimiter e # rest) static_registry =
     static_registry
       \<lparr>prefix_stats :=
          (\<lambda>i. [])(unat (hash e pre) mod PREFIX_HASH_SIZE :=
                     [zero_stats\<lparr>prefix := pre, prefix_len := length pre, num_sets := 1\<rparr>]),
        num_prefixes := 1, total_prefix_size := word_of_nat (length pre)\<rparr>"
  using assms
  by (simp add: stats_prefix_record_set_def stats_prefix_find_def static_registry_def
      Let_def set_body_def zero_stats_def delimiter_index_append)

lemma chained_single:
  "chained (static_registry
       \<lparr>prefix_stats := (\<lambda>i. [])(unat (h :: 32 word) mod PREFIX_HASH_SIZE := c),
        num_prefixes := x, total_prefix_size := y\<rparr>) = c"
proof -
  have "unat h mod PREFIX_HASH_SIZE < PREFIX_HASH_SIZE"
    by (simp add: PREFIX_HASH_SIZE_def)
  then show ?thesis
    by (simp add: chained_def concat_single_bucket)
qed

lemma long_key_append: "long_key n = replicate n (CHR ''a'') @ prefix_delimiter sample_env # []"
  by (simp add: long_key_def sample_env_def)

lemma record_set_long_key:
  "stats_prefix_record_set sample_env pool_ok (long_key n) (stats_prefix_init static_registry) =
     static_registry
       \<lparr>prefix_stats :=
          (\<lambda>i. [])(unat (hash sample_env (replicate n (CHR ''a''))) mod PREFIX_HASH_SIZE :=
                     [zero_stats\<lparr>prefix := replicate n (CHR ''a''), prefix_len := n,
                                 num_sets := 1\<rparr>]),
        num_prefixes := 1, total_prefix_size := word_of_nat n\<rparr>"
proof -
  have a: "prefix_delimiter sample_env \<notin> set (replicate n (CHR ''a''))"
    by (simp add: sample_env_def)
  have b: "calloc_ok pool_ok" and c: "malloc_ok pool_ok"
    by (simp_all add: pool_ok_def)
  have "stats_prefix_record_set sample_env pool_ok
          (replicate n (CHR ''a'') @ prefix_delimiter sample_env # []) static_registry =
     static_registry
       \<lparr>prefix_stats :=
          (\<lambda>i. [])(unat (hash sample_env (replicate n (CHR ''a''))) mod PREFIX_HASH_SIZE :=
                     [zero_stats\<lparr>prefix := replicate n (CHR ''a''),
                                 prefix_len := length (replicate n (CHR ''a'')),
                                 num_sets := 1\<rparr>]),
        num_prefixes := 1,
        total_prefix_size := word_of_nat (length (replicate n (CHR ''a'')))\<rparr>"
    using a b c by (rule record_set_fresh)
  then show ?thesis
    by (simp only: init_static long_key_append length_replicate)
qed

lemma long_key_state:
  "chained (stats_prefix_record_set sample_env pool_ok (long_key n)
              (stats_prefix_init static_registry)) =
     [zero_stats\<lparr>prefix := replicate n (CHR ''a''), prefix_len := n, num_sets := 1\<rparr>]"
  "total_prefix_size (stats_prefix_record_set sample_env pool_ok (long_key n)
              (stats_prefix_init static_registry)) = word_of_nat n"
  "num_prefixes (stats_prefix_record_set sample_env pool_ok (long_key n)
              (stats_prefix_init static_registry)) = 1"
  "wildcard (stats_prefix_record_set sample_env pool_ok (long_key n)
              (stats_prefix_init static_registry)) = zero_stats"
  unfolding record_set_long_key
  by (simp_all only: chained_single) (simp_all add: static_registry_def)

lemma reachable_record:
  assumes "reachable e s"
  shows "\<forall>t \<in> {s, stats_prefix_record_get e p key n hit s,
                stats_prefix_record_delete e p key s,
                stats_prefix_record_set e p key s,
                stats_prefix_record_byte_total_change e p now key bytes fl s,
                stats_prefix_record_removal e p now key nbytes time flags s}.
           reachable e t"
  using assms by (auto intro: reachable.intros)

text \<open>
  C9, within the range of \<open>int\<close>. \<open>num_prefixes\<close> and \<open>total_prefix_size\<close> are C \<open>int\<close>s. In every state
  between public operations, and in the state after each \<^verbatim>\<open>stats_prefix_record_*\<close> call on
  it: if the number of chained entries is below \<open>2^31\<close> then \<open>num_prefixes\<close> equals it, and
  if the sum of the stored prefix lengths is below \<open>2^31\<close> then \<open>total_prefix_size\<close>
  equals it. A call of \<^verbatim>\<open>stats_prefix_find\<close> either leaves the state as it was, or links
  one new entry and then executes \<open>num_prefixes++\<close> and
  \<open>total_prefix_size += length\<close>; when it returns \<open>NULL\<close> (an allocation failed) the
  state is as it was. \<^verbatim>\<open>stats_prefix_clear\<close> leaves no chained entry and both counters 0.
\<close>

theorem registry_bookkeeping:
  assumes "reachable e s"
  shows "(\<forall>t \<in> {s, stats_prefix_record_get e p key n hit s,
                 stats_prefix_record_delete e p key s,
                 stats_prefix_record_set e p key s,
                 stats_prefix_record_byte_total_change e p now key bytes fl s,
                 stats_prefix_record_removal e p now key nbytes time flags s}.
        (length (chained t) < 2 ^ 31 \<longrightarrow>
           sint (num_prefixes t) = int (length (chained t))) \<and>
        (sum_list (map prefix_len (chained t)) < 2 ^ 31 \<longrightarrow>
           sint (total_prefix_size t) = int (sum_list (map prefix_len (chained t))))) \<and>
     (\<forall>s' r. stats_prefix_find e p key s = (s', r) \<longrightarrow>
        s' = s \<or>
        (\<exists>q. r = Some q) \<and>
         length (chained s') = length (chained s) + 1 \<and>
         num_prefixes s' = num_prefixes s + 1 \<and>
         total_prefix_size s' =
           total_prefix_size s +
           word_of_nat (length (takeWhile (\<lambda>c. c \<noteq> prefix_delimiter e) key))) \<and>
     (\<forall>s'. stats_prefix_find e p key s = (s', None) \<longrightarrow> s' = s) \<and>
     chained (stats_prefix_clear s) = [] \<and>
     num_prefixes (stats_prefix_clear s) = 0 \<and>
     total_prefix_size (stats_prefix_clear s) = 0"
proof -
  have exact: "(length (chained t) < 2 ^ 31 \<longrightarrow>
           sint (num_prefixes t) = int (length (chained t))) \<and>
        (sum_list (map prefix_len (chained t)) < 2 ^ 31 \<longrightarrow>
           sint (total_prefix_size t) = int (sum_list (map prefix_len (chained t))))"
    if "reachable e t" for t
  proof -
    from that have "registry_inv t" by (rule reachable_inv)
    then show ?thesis
      by (simp add: registry_inv_def sint_of_nat_small)
  qed
  have created: "s' = s \<or>
        (\<exists>q. r = Some q) \<and>
         length (chained s') = length (chained s) + 1 \<and>
         num_prefixes s' = num_prefixes s + 1 \<and>
         total_prefix_size s' =
           total_prefix_size s +
           word_of_nat (length (takeWhile (\<lambda>c. c \<noteq> prefix_delimiter e) key))"
    if "stats_prefix_find e p key s = (s', r)" for s' r
    using that
  proof (cases rule: find_cases)
    case same
    then show ?thesis by simp
  next
    case (created h)
    have "length (chained s') = length (chained s) + 1"
      unfolding created(4) by (simp add: find_created_chained [OF created(2)])
    with created(3,4) show ?thesis
      by (simp add: delimiter_index_takeWhile)
  qed
  have failed: "s' = s" if "stats_prefix_find e p key s = (s', None)" for s'
    using that by (cases rule: find_cases) simp_all
  have cleared: "chained (stats_prefix_clear s) = []"
    "num_prefixes (stats_prefix_clear s) = 0" "total_prefix_size (stats_prefix_clear s) = 0"
    by (simp_all add: chained_clear) (simp_all add: stats_prefix_clear_def)
  from reachable_record [OF assms] exact created failed cleared show ?thesis
    by blast
qed

theorem registry_bookkeeping_witness:
  "reachable sample_env (stats_prefix_init static_registry) \<and>
   sint (num_prefixes (stats_prefix_record_set sample_env pool_ok (long_key 3)
                         (stats_prefix_init static_registry))) = 1 \<and>
   sint (total_prefix_size (stats_prefix_record_set sample_env pool_ok (long_key 3)
                              (stats_prefix_init static_registry))) = 3"
proof -
  let ?s = "stats_prefix_init static_registry"
  let ?t = "stats_prefix_record_set sample_env pool_ok (long_key 3) ?s"
  have r: "reachable sample_env ?s" by (rule reachable.start)
  have n: "length (chained ?t) = 1" and m: "sum_list (map prefix_len (chained ?t)) = 3"
    by (simp_all only: long_key_state) (simp_all add: zero_stats_def)
  from registry_bookkeeping [OF r, of pool_ok "long_key 3" 0 False 0 0 0 0 0 0]
  have "(length (chained ?t) < 2 ^ 31 \<longrightarrow>
           sint (num_prefixes ?t) = int (length (chained ?t))) \<and>
        (sum_list (map prefix_len (chained ?t)) < 2 ^ 31 \<longrightarrow>
           sint (total_prefix_size ?t) = int (sum_list (map prefix_len (chained ?t))))"
    by blast
  then have "sint (num_prefixes ?t) = 1 \<and> sint (total_prefix_size ?t) = 3"
    unfolding n m by simp
  with r show ?thesis by blast
qed

text \<open>
  C9 as stated fails where an \<open>int\<close> cannot hold the sum: after one
  \<^verbatim>\<open>stats_prefix_record_set\<close> of a key whose prefix is \<open>2^31\<close> bytes long, the sum of the
  stored prefix lengths is \<open>2^31\<close> and \<open>total_prefix_size\<close> is not.
\<close>

theorem registry_bookkeeping_counterexample:
  "reachable sample_env
     (stats_prefix_record_set sample_env pool_ok (long_key 2147483648)
        (stats_prefix_init static_registry)) \<and>
   sum_list (map prefix_len
     (chained (stats_prefix_record_set sample_env pool_ok (long_key 2147483648)
                 (stats_prefix_init static_registry)))) = 2147483648 \<and>
   sint (total_prefix_size
     (stats_prefix_record_set sample_env pool_ok (long_key 2147483648)
        (stats_prefix_init static_registry))) \<noteq>
   int (sum_list (map prefix_len
     (chained (stats_prefix_record_set sample_env pool_ok (long_key 2147483648)
                 (stats_prefix_init static_registry)))))"
proof -
  let ?t = "stats_prefix_record_set sample_env pool_ok (long_key 2147483648)
              (stats_prefix_init static_registry)"
  have r: "reachable sample_env ?t"
    by (intro reachable.set reachable.start)
  have m: "sum_list (map prefix_len (chained ?t)) = 2147483648"
    by (simp only: long_key_state) (simp add: zero_stats_def)
  have "sint (total_prefix_size ?t) < 2147483648"
    using sint_32_less [of "total_prefix_size ?t"] by simp
  with r m show ?thesis by simp
qed

lemma record_skipped:
  assumes "stats_prefix_find e p key s = (s, None)"
  shows "stats_prefix_record_get e p key n hit s = s"
    and "stats_prefix_record_delete e p key s = s"
    and "stats_prefix_record_set e p key s = s"
    and "stats_prefix_record_byte_total_change e p now key bytes fl s = s"
    and "stats_prefix_record_removal e p now key nbytes time flags s = s"
  using assms
  by (simp_all add: stats_prefix_record_get_def stats_prefix_record_delete_def
      stats_prefix_record_set_def stats_prefix_record_byte_total_change_def
      stats_prefix_record_removal_def)

text \<open>
  C8. When the key has a delimiter, its prefix has no entry yet and \<open>pool_calloc\<close> or
  \<open>pool_malloc\<close> fails, \<^verbatim>\<open>stats_prefix_find\<close> returns \<open>NULL\<close> and the state it was given,
  and each \<^verbatim>\<open>stats_prefix_record_*\<close> call returns the state it was given: no entry and no
  counter of the table has changed. When \<open>malloc\<close> fails in \<^verbatim>\<open>stats_prefix_dump\<close>, the
  dump returns \<open>NULL\<close>, no text, and the state it was given.
\<close>

theorem allocation_failure_skips:
  assumes "prefix_delimiter e \<in> set key"
    and "chain_scan key (delimiter_index (prefix_delimiter e) key)
           (prefix_stats s
              (unat (hash e (take (delimiter_index (prefix_delimiter e) key) key))
               mod PREFIX_HASH_SIZE)) = None"
    and "\<not> calloc_ok p \<or> \<not> malloc_ok p"
  shows "stats_prefix_find e p key s = (s, None) \<and>
     stats_prefix_record_get e p key n hit s = s \<and>
     stats_prefix_record_delete e p key s = s \<and>
     stats_prefix_record_set e p key s = s \<and>
     stats_prefix_record_byte_total_change e p now key bytes fl s = s \<and>
     stats_prefix_record_removal e p now key nbytes time flags s = s \<and>
     stats_prefix_dump e False now s = (s, None)"
proof -
  have "delimiter_index (prefix_delimiter e) key \<noteq> length key"
    using assms(1) by (simp add: delimiter_index_eq_length)
  with assms(2,3) have "stats_prefix_find e p key s = (s, None)"
    by (auto simp: stats_prefix_find_def Let_def)
  then show ?thesis
    by (simp add: record_skipped dump_state_failed)
qed

theorem allocation_failure_skips_witness:
  "stats_prefix_find sample_env pool_exhausted ''abc:123'' static_registry =
     (static_registry, None) \<and>
   stats_prefix_record_set sample_env pool_exhausted ''abc:123'' static_registry =
     static_registry \<and>
   stats_prefix_record_removal sample_env pool_exhausted 3 ''abc:123'' 7 0 1 static_registry =
     static_registry \<and>
   stats_prefix_dump sample_env False 3 static_registry = (static_registry, None)"
proof -
  have d: "prefix_delimiter sample_env \<in> set ''abc:123''"
    by (simp add: sample_env_def)
  have c: "chain_scan ''abc:123'' (delimiter_index (prefix_delimiter sample_env) ''abc:123'')
           (prefix_stats static_registry
              (unat (hash sample_env
                  (take (delimiter_index (prefix_delimiter sample_env) ''abc:123'') ''abc:123''))
               mod PREFIX_HASH_SIZE)) = None"
    by (simp add: static_registry_def)
  have x: "\<not> calloc_ok pool_exhausted \<or> \<not> malloc_ok pool_exhausted"
    by (simp add: pool_exhausted_def)
  from allocation_failure_skips [OF d c x, of _ _ 3 _ _ 7 0 1] show ?thesis
    by blast
qed

subsection \<open>The time-weighted flush\<close>

lemma record_byte_total_change_entry:
  "stats_prefix_find e p key s = (s1, Some pfs) \<Longrightarrow> deref s1 pfs = Some a \<Longrightarrow>
   deref (stats_prefix_record_byte_total_change e p now key bytes fl s) pfs =
     Some (byte_total_change_body e now bytes fl a)"
  by (simp add: stats_prefix_record_byte_total_change_def deref_modify_same)

lemma byte_total_change_body_flush:
  "total_byte_seconds (byte_total_change_body e now bytes fl a) =
     total_byte_seconds (time_weighted_flush now a)"
  "last_update (byte_total_change_body e now bytes fl a) = now"
  "num_bytes (byte_total_change_body e now bytes fl a) = num_bytes a + word_of_int bytes"
  by (simp_all add: byte_total_change_body_def time_weighted_flush_def Let_def)

lemma removal_body_flush:
  "total_byte_seconds (removal_body e now nbytes flags a) =
     total_byte_seconds (time_weighted_flush now a)"
  "last_update (removal_body e now nbytes flags a) = now"
  by (simp_all add: removal_body_def time_weighted_flush_def Let_def)

lemma flush_after_flush:
  "last_update a = now \<Longrightarrow>
   dump_flush (now + k) a =
     a\<lparr>total_byte_seconds := total_byte_seconds a + num_bytes a * ucast k,
       last_update := now + k\<rparr>"
  by (simp add: dump_flush_def)

lemma dump_flush_last_update: "last_update (dump_flush now a) = now"
  by (simp add: dump_flush_def)

text \<open>
  C1. Let \<open>a\<close> be the entry of the key before the call and \<open>now\<close> the clock.
  \<^verbatim>\<open>stats_prefix_record_byte_total_change\<close> and \<^verbatim>\<open>stats_prefix_record_removal\<close> leave
  \<open>total_byte_seconds\<close> increased by \<open>num_bytes a * (now - last_update a)\<close> if \<open>now\<close>
  differs from \<open>last_update a\<close> (and as it was otherwise), with \<open>last_update\<close> equal to
  \<open>now\<close>; the product uses the byte count from before the call, which the call then
  changes by \<open>bytes\<close>. A dump (whose \<open>malloc\<close> succeeds) does the same flush to every
  chained entry and to the wildcard. Hence, after a dump at \<open>now\<close>, a dump \<open>k\<close> ticks
  later with nothing in between has added exactly \<open>num_bytes * k\<close> to
  \<open>total_byte_seconds\<close> of every entry, in the 64-bit arithmetic of the field, and has
  changed nothing else but \<open>last_update\<close>.
\<close>

theorem time_weighted_flush_applied:
  assumes "stats_prefix_find e p key s = (s1, Some pfs)"
  shows "\<exists>a b c. deref s1 pfs = Some a \<and>
     deref (stats_prefix_record_byte_total_change e p now key bytes fl s) pfs = Some b \<and>
     total_byte_seconds b =
       (if now \<noteq> last_update a
        then total_byte_seconds a + num_bytes a * ucast (now - last_update a)
        else total_byte_seconds a) \<and>
     last_update b = now \<and>
     num_bytes b = num_bytes a + word_of_int bytes \<and>
     deref (stats_prefix_record_removal e p now key nbytes time flags s) pfs = Some c \<and>
     total_byte_seconds c =
       (if now \<noteq> last_update a
        then total_byte_seconds a + num_bytes a * ucast (now - last_update a)
        else total_byte_seconds a) \<and>
     last_update c = now \<and>
     num_bytes c = num_bytes a - nbytes \<and>
     chained (fst (stats_prefix_dump e True now s)) =
       map (time_weighted_flush now) (chained s) \<and>
     wildcard (fst (stats_prefix_dump e True now s)) =
       time_weighted_flush now (wildcard s) \<and>
     chained (fst (stats_prefix_dump e True (now + k) (fst (stats_prefix_dump e True now s)))) =
       map (\<lambda>a. a\<lparr>total_byte_seconds := total_byte_seconds a + num_bytes a * ucast k,
                  last_update := now + k\<rparr>)
         (chained (fst (stats_prefix_dump e True now s))) \<and>
     wildcard (fst (stats_prefix_dump e True (now + k) (fst (stats_prefix_dump e True now s)))) =
       (wildcard (fst (stats_prefix_dump e True now s)))
         \<lparr>total_byte_seconds :=
            total_byte_seconds (wildcard (fst (stats_prefix_dump e True now s))) +
            num_bytes (wildcard (fst (stats_prefix_dump e True now s))) * ucast k,
          last_update := now + k\<rparr>"
proof -
  from find_ptr_valid [OF assms] obtain a where a: "deref s1 pfs = Some a" ..
  let ?b = "byte_total_change_body e now bytes fl a"
  let ?c = "removal_body e now nbytes flags a"
  let ?s2 = "fst (stats_prefix_dump e True now s)"
  have b: "deref (stats_prefix_record_byte_total_change e p now key bytes fl s) pfs = Some ?b"
    using assms a by (rule record_byte_total_change_entry)
  have c: "deref (stats_prefix_record_removal e p now key nbytes time flags s) pfs = Some ?c"
    using assms a by (rule record_removal_entry)
  have f: "total_byte_seconds (time_weighted_flush now a) =
       (if now \<noteq> last_update a
        then total_byte_seconds a + num_bytes a * ucast (now - last_update a)
        else total_byte_seconds a)"
    by (simp add: time_weighted_flush_def)
  have d1: "chained ?s2 = map (time_weighted_flush now) (chained s)"
    by (simp add: chained_dump dump_flush_flush)
  have w1: "wildcard ?s2 = time_weighted_flush now (wildcard s)"
    by (simp add: dump_state dump_flush_flush)
  have d2: "chained (fst (stats_prefix_dump e True (now + k) ?s2)) =
       map (\<lambda>a. a\<lparr>total_byte_seconds := total_byte_seconds a + num_bytes a * ucast k,
                  last_update := now + k\<rparr>) (chained ?s2)"
    unfolding chained_dump [of e "now + k" ?s2]
    by (rule map_cong [OF refl])
      (auto simp: chained_dump [of e now s] flush_after_flush dump_flush_last_update)
  have w2: "wildcard (fst (stats_prefix_dump e True (now + k) ?s2)) =
       (wildcard ?s2)
         \<lparr>total_byte_seconds :=
            total_byte_seconds (wildcard ?s2) + num_bytes (wildcard ?s2) * ucast k,
          last_update := now + k\<rparr>"
  proof -
    have "last_update (wildcard ?s2) = now"
      by (simp add: dump_state dump_flush_last_update)
    then have "dump_flush (now + k) (wildcard ?s2) =
       (wildcard ?s2)
         \<lparr>total_byte_seconds :=
            total_byte_seconds (wildcard ?s2) + num_bytes (wildcard ?s2) * ucast k,
          last_update := now + k\<rparr>"
      by (rule flush_after_flush)
    then show ?thesis
      by (simp add: dump_state [of e "now + k" ?s2])
  qed
  show ?thesis
    apply (rule exI [of _ a], rule exI [of _ ?b], rule exI [of _ ?c])
    apply (intro conjI a b c d1 w1 d2 w2)
          apply (simp_all add: byte_total_change_body_flush removal_body_flush
        removal_body_fields f)
    done
qed

theorem time_weighted_flush_applied_witness:
  "\<exists>c. deref (stats_prefix_record_removal sample_env pool_ok 5 ''abc:456'' 30 0 0
                (stats_prefix_record_byte_total_change sample_env pool_ok 2 ''abc:123'' 100 1
                   static_registry))
          (Chained 7 0) = Some c \<and>
       total_byte_seconds c = 300 \<and> last_update c = 5 \<and> num_bytes c = 70"
proof -
  let ?s = "stats_prefix_record_byte_total_change sample_env pool_ok 2 ''abc:123'' 100 1
              static_registry"
  have f: "stats_prefix_find sample_env pool_ok ''abc:456'' ?s = (?s, Some (Chained 7 0))"
    by (simp add: stats_prefix_record_byte_total_change_def stats_prefix_find_def
        sample_env_def pool_ok_def static_registry_def PREFIX_HASH_SIZE_def Let_def
        byte_total_change_body_def zero_stats_def)
  have a: "\<exists>x. deref ?s (Chained 7 0) = Some x \<and>
             num_bytes x = 100 \<and> last_update x = 2 \<and> total_byte_seconds x = 0"
    by (simp add: stats_prefix_record_byte_total_change_def stats_prefix_find_def
        sample_env_def pool_ok_def static_registry_def PREFIX_HASH_SIZE_def Let_def
        byte_total_change_body_def zero_stats_def)
  from time_weighted_flush_applied [OF f, of 5 0 0 30 0 0 0] a show ?thesis
    by auto
qed

subsection \<open>The length of the printed text\<close>

lemma printf_u_length: "0 < k \<Longrightarrow> n < 10 ^ k \<Longrightarrow> length (printf_u n) \<le> k"
proof (induction k arbitrary: n)
  case 0
  then show ?case by simp
next
  case (Suc k)
  show ?case
  proof (cases "n < 10")
    case True
    then show ?thesis by (simp add: printf_u.simps [of n])
  next
    case False
    with Suc.prems have k: "0 < k" by (cases k) auto
    from Suc.prems have "n div 10 < 10 ^ k" by (simp add: less_mult_imp_div_less mult.commute)
    with k have "length (printf_u (n div 10)) \<le> k" by (rule Suc.IH)
    with False show ?thesis by (simp add: printf_u.simps [of n])
  qed
qed

lemma printf_u32_length: "length (printf_u (unat (x :: 32 word))) \<le> 10"
proof -
  have "unat x < 2 ^ 32" using unsigned_less [of x, where ?'a = nat] by simp
  then have "unat x < 10 ^ 10" by simp
  then show ?thesis by (intro printf_u_length) simp_all
qed

lemma printf_u64_length: "length (printf_u (unat (x :: 64 word))) \<le> 20"
proof -
  have "unat x < 2 ^ 64" using unsigned_less [of x, where ?'a = nat] by simp
  then have "unat x < 10 ^ 20" by simp
  then show ?thesis by (intro printf_u_length) simp_all
qed

lemma printf_s_length: "length (printf_s prec str) \<le> prec"
proof -
  have "length (printf_s prec str) \<le> length (take prec str)"
    unfolding printf_s_def by (rule length_takeWhile_le)
  then show ?thesis by simp
qed

lemma format_prefix_line_length: "length (format_prefix_line prec name a) \<le> prec + 288"
  using printf_s_length [of prec name] printf_u32_length [of "num_items a"]
    printf_u64_length [of "num_gets a"] printf_u64_length [of "num_hits a"]
    printf_u64_length [of "num_sets a"] printf_u64_length [of "num_deletes a"]
    printf_u64_length [of "num_evicts a"] printf_u64_length [of "num_overwrites a"]
    printf_u64_length [of "num_expires a"] printf_u64_length [of "num_bytes a"]
    printf_u64_length [of "bytes_txed a"] printf_u64_length [of "total_byte_seconds a"]
  by (simp add: format_prefix_line_def CRLF_def)

lemma entries_text_Nil: "entries_text now [] = []"
  by (simp add: entries_text_def)

lemma entries_text_Cons:
  "entries_text now (a # c) =
   format_prefix_line (prefix_len a) (prefix a) (dump_flush now a) @ entries_text now c"
  by (simp add: entries_text_def)

lemma entries_text_append:
  "entries_text now (c @ c') = entries_text now c @ entries_text now c'"
  by (simp add: entries_text_def)

lemma entries_text_length:
  "length (entries_text now c) \<le> sum_list (map prefix_len c) + 288 * length c"
proof (induction c)
  case Nil
  show ?case by (simp add: entries_text_Nil)
next
  case (Cons a c)
  have "length (format_prefix_line (prefix_len a) (prefix a) (dump_flush now a))
        \<le> prefix_len a + 288"
    by (rule format_prefix_line_length)
  with Cons show ?case by (simp add: entries_text_Cons)
qed

subsection \<open>The dump writes the whole text\<close>

lemma append_fits:
  "length buf = off \<Longrightarrow> off + reserved + length text < sz \<Longrightarrow>
   append_to_buffer buf sz off reserved text = (buf @ text, off + length text)"
  by (simp add: append_to_buffer_def)

lemma dump_chain_fits:
  "length buf = off \<Longrightarrow>
   off + length (entries_text now c) + sizeof_str terminator < sz \<Longrightarrow>
   snd (dump_chain now sz c (buf, off)) =
     (buf @ entries_text now c, off + length (entries_text now c))"
proof (induction c arbitrary: buf off)
  case Nil
  then show ?case by (simp add: entries_text_Nil)
next
  case (Cons a c)
  let ?line = "format_prefix_line (prefix_len a) (prefix a) (dump_flush now a)"
  have l: "prefix_len (dump_flush now a) = prefix_len a" "prefix (dump_flush now a) = prefix a"
    by (simp_all add: dump_flush_def)
  from Cons.prems have fits: "off + sizeof_str terminator + length ?line < sz"
    by (simp add: entries_text_Cons)
  have ap: "append_to_buffer buf sz off (sizeof_str terminator) ?line =
            (buf @ ?line, off + length ?line)"
    using Cons.prems(1) fits by (rule append_fits)
  have "snd (dump_chain now sz c (buf @ ?line, off + length ?line)) =
        ((buf @ ?line) @ entries_text now c,
         (off + length ?line) + length (entries_text now c))"
    using Cons.prems by (intro Cons.IH) (simp_all add: entries_text_Cons)
  then show ?case
    by (simp add: Let_def l ap case_prod_beta entries_text_Cons)
qed

lemma dump_buckets_fits_upto:
  "length buf = off \<Longrightarrow>
   off + length (entries_text now (concat (map tbl [0..<n]))) + sizeof_str terminator < sz \<Longrightarrow>
   snd (fold (dump_bucket now sz) [0..<n] (tbl, (buf, off))) =
     (buf @ entries_text now (concat (map tbl [0..<n])),
      off + length (entries_text now (concat (map tbl [0..<n]))))"
proof (induction n)
  case 0
  then show ?case by (simp add: entries_text_Nil)
next
  case (Suc n)
  let ?r = "fold (dump_bucket now sz) [0..<n] (tbl, (buf, off))"
  let ?t = "entries_text now (concat (map tbl [0..<n]))"
  from Suc.prems have "off + length ?t + sizeof_str terminator < sz"
    by (simp add: entries_text_append)
  with Suc.prems(1) have bo: "snd ?r = (buf @ ?t, off + length ?t)"
    by (rule Suc.IH)
  have tn: "fst ?r n = tbl n"
    by (simp add: dump_buckets_entries_upto)
  have "snd (dump_chain now sz (tbl n) (buf @ ?t, off + length ?t)) =
        ((buf @ ?t) @ entries_text now (tbl n),
         (off + length ?t) + length (entries_text now (tbl n)))"
    using Suc.prems by (intro dump_chain_fits) (simp_all add: entries_text_append)
  then have "snd (dump_bucket now sz n ?r) =
        (buf @ ?t @ entries_text now (tbl n),
         off + length ?t + length (entries_text now (tbl n)))"
    by (simp add: dump_bucket_def case_prod_beta tn bo)
  then show ?case
    by (simp add: entries_text_append)
qed

lemma dump_buckets_fits:
  "off + length (entries_text now (chained s)) + sizeof_str terminator < sz \<Longrightarrow>
   length buf = off \<Longrightarrow>
   snd (dump_buckets now sz (prefix_stats s) (buf, off)) =
     (buf @ entries_text now (chained s), off + length (entries_text now (chained s)))"
  unfolding dump_buckets_def chained_def by (rule dump_buckets_fits_upto)

lemma format_length: "length (STATS_PREFIX_DUMP_FORMAT m) = 104 + 10 * length m"
  by (simp add: STATS_PREFIX_DUMP_FORMAT_def CRLF_def)

lemma dump_buffer_size_eq:
  assumes "registry_inv s" and "length (PRINTF_INT64_MODIFIER e) \<le> 302"
    and "Suc (length (chained s)) < 2 ^ 31"
    and "sum_list (map prefix_len (chained s)) < 2 ^ 31"
  shows "dump_buffer_size e s =
     sum_list (map prefix_len (chained s)) +
     (length (chained s) + 1) * (302 - length (PRINTF_INT64_MODIFIER e)) + 17"
proof -
  let ?m = "PRINTF_INT64_MODIFIER e"
  let ?sum = "sum_list (map prefix_len (chained s))"
  let ?n = "length (chained s)"
  have fl: "int (sizeof_str (''%'' @ ?m @ ''u'')) - int (sizeof_str []) = int (length ?m) + 2"
    by (simp add: sizeof_str_def)
  have "int (length (STATS_PREFIX_DUMP_FORMAT ?m)) + 11 * (20 - (int (length ?m) + 2)) =
        int (302 - length ?m)"
    using assms(2) by (simp add: format_length)
  then have "(word_of_int (int (length (STATS_PREFIX_DUMP_FORMAT ?m)) +
                          11 * (20 - (int (length ?m) + 2))) :: 64 word) =
             word_of_nat (302 - length ?m)"
    by (simp only: of_int_of_nat_eq)
  then have per: "(word_of_nat (length (STATS_PREFIX_DUMP_FORMAT ?m)) +
              word_of_int (11 * (20 - (int (length ?m) + 2))) :: 64 word) =
             word_of_nat (302 - length ?m)"
    by (simp only: of_int_add of_int_of_nat_eq)
  have w: "(word_of_nat (sizeof_str wildcard_name) :: 64 word) = 11"
    "(word_of_nat (sizeof_str terminator) :: 64 word) = 6"
    by (simp_all add: sizeof_str_def wildcard_name_def terminator_def CRLF_def)
  from assms(1) have "num_prefixes s + 1 = word_of_nat (Suc ?n)"
    and "total_prefix_size s = word_of_nat ?sum"
    by (simp_all add: registry_inv_def)
  with assms(3,4) have c: "(scast (num_prefixes s + 1) :: 64 word) = word_of_nat (Suc ?n)"
    "(scast (total_prefix_size s) :: 64 word) = word_of_nat ?sum"
    by (simp_all only: scast_of_nat_small)
  have "dump_buffer_size e s =
        unat (word_of_nat ?sum + word_of_nat (Suc ?n) * word_of_nat (302 - length ?m)
              + 11 + 6 :: 64 word)"
    by (simp only: dump_buffer_size_def Let_def fl per w c)
  also have "(word_of_nat ?sum + word_of_nat (Suc ?n) * word_of_nat (302 - length ?m)
              + 11 + 6 :: 64 word) =
             word_of_nat (?sum + (?n + 1) * (302 - length ?m) + 17)"
    by (simp add: distrib_right)
  also have "unat \<dots> = ?sum + (?n + 1) * (302 - length ?m) + 17"
  proof (rule unat_of_nat_64)
    have "(?n + 1) * (302 - length ?m) \<le> 2 ^ 31 * 302"
      using assms(3) by (intro mult_le_mono) simp_all
    with assms(4) show "?sum + (?n + 1) * (302 - length ?m) + 17 < 2 ^ 64"
      by simp
  qed
  finally show ?thesis .
qed

lemma dump_output:
  assumes inv: "registry_inv s" and m: "length (PRINTF_INT64_MODIFIER e) \<le> 14"
    and n: "Suc (length (chained s)) < 2 ^ 31"
    and sum: "sum_list (map prefix_len (chained s)) < 2 ^ 31"
  shows "snd (stats_prefix_dump e True now s) =
           Some (dump_text now s,
                 sint (word_of_nat (length (dump_text now s)) :: 32 word)) \<and>
         length (dump_text now s) < dump_buffer_size e s"
proof -
  define sz where "sz = dump_buffer_size e s"
  define E where "E = entries_text now (chained s)"
  define w where "w = dump_flush now (wildcard s)"
  define W where "W = format_prefix_line 10 wildcard_name w"
  define active where
    "active \<longleftrightarrow> num_gets (wildcard s) \<noteq> 0 \<or> num_sets (wildcard s) \<noteq> 0 \<or>
                num_deletes (wildcard s) \<noteq> 0"
  let ?sum = "sum_list (map prefix_len (chained s))"
  let ?n = "length (chained s)"
  have "sz = ?sum + (?n + 1) * (302 - length (PRINTF_INT64_MODIFIER e)) + 17"
    unfolding sz_def using inv m n sum by (intro dump_buffer_size_eq) simp_all
  moreover have "(?n + 1) * 288 \<le> (?n + 1) * (302 - length (PRINTF_INT64_MODIFIER e))"
    using m by (intro mult_le_mono2) simp
  ultimately have sz: "?sum + 288 * ?n + 305 \<le> sz" by simp
  have E: "length E \<le> ?sum + 288 * ?n"
    unfolding E_def by (rule entries_text_length)
  have W: "length W \<le> 298"
    unfolding W_def using format_prefix_line_length [of 10 wildcard_name w] by simp
  have T: "length terminator = 5" "sizeof_str terminator = 6"
    by (simp_all add: terminator_def CRLF_def sizeof_str_def)
  have wn: "sizeof_str wildcard_name - 1 = 10"
    by (simp add: sizeof_str_def wildcard_name_def)
  have act: "(num_gets w \<noteq> 0 \<or> num_sets w \<noteq> 0 \<or> num_deletes w \<noteq> 0) = active"
    by (simp add: w_def active_def dump_flush_def)
  have b: "snd (dump_buckets now sz (prefix_stats s) ([], 0)) = (E, length E)"
    using dump_buckets_fits [of 0 now s sz "[]"] E sz T by (simp add: E_def)
  define bo where
    "bo = (if active then append_to_buffer E sz (length E) (sizeof_str terminator) W
           else (E, length E))"
  have bo: "bo = (if active then (E @ W, length E + length W) else (E, length E))"
    unfolding bo_def using E W sz T by (simp add: append_fits)
  then have bo_len: "length (fst bo) = snd bo" "snd bo + 5 < sz"
    using E W sz by (simp_all split: if_splits)
  have term_app: "append_to_buffer (fst bo) sz (snd bo) 0 terminator =
             (fst bo @ terminator, snd bo + length terminator)"
    using bo_len T by (intro append_fits) simp_all
  have text_eq: "dump_text now s = fst bo @ terminator"
    by (simp add: dump_text_def bo E_def W_def w_def active_def)
  have "snd (stats_prefix_dump e True now s) =
        Some (let bo0 = snd (dump_buckets now sz (prefix_stats s) ([], 0));
                  bo1 = (if num_gets w \<noteq> 0 \<or> num_sets w \<noteq> 0 \<or> num_deletes w \<noteq> 0
                         then append_to_buffer (fst bo0) sz (snd bo0) (sizeof_str terminator)
                                (format_prefix_line (sizeof_str wildcard_name - 1)
                                   wildcard_name w)
                         else bo0);
                  bo2 = append_to_buffer (fst bo1) sz (snd bo1) 0 terminator
              in (fst bo2, sint (word_of_nat (snd bo2) :: 32 word)))"
    unfolding stats_prefix_dump_def sz_def w_def
    by (simp only: Let_def case_prod_beta if_False not_True_eq_False snd_conv)
  also have "\<dots> = Some (fst (append_to_buffer (fst bo) sz (snd bo) 0 terminator),
                        sint (word_of_nat
                          (snd (append_to_buffer (fst bo) sz (snd bo) 0 terminator)) :: 32 word))"
    by (simp only: Let_def b act wn fst_conv snd_conv W_def [symmetric] bo_def)
  finally have "snd (stats_prefix_dump e True now s) =
        Some (fst (append_to_buffer (fst bo) sz (snd bo) 0 terminator),
              sint (word_of_nat
                (snd (append_to_buffer (fst bo) sz (snd bo) 0 terminator)) :: 32 word))" .
  with term_app text_eq bo_len T show ?thesis
    by (simp add: sz_def)
qed







lemma dump_empty:
  assumes "length (PRINTF_INT64_MODIFIER e) \<le> 14"
    and "registry_inv s" and "chained s = []" and "wildcard s = zero_stats"
  shows "snd (stats_prefix_dump e True now s) = Some (terminator, 5)"
proof -
  have "dump_text now s = terminator"
    using assms(3,4) by (simp add: dump_text_def entries_text_Nil zero_stats_def)
  moreover have "length terminator = 5"
    by (simp add: terminator_def CRLF_def)
  moreover have "Suc (length (chained s)) < 2 ^ 31"
    "sum_list (map prefix_len (chained s)) < 2 ^ 31"
    using assms(3) by simp_all
  ultimately show ?thesis
    using dump_output [OF assms(2,1), of now] by simp
qed

text \<open>
  C6. A dump of the registry as the program starts it (no entry, the wildcard all zero)
  returns the five bytes \<open>END\<close>, CR, LF. \<^verbatim>\<open>stats_prefix_clear\<close> leaves, from any state, no
  chained entry, both counters 0 and the wildcard all zero, and a dump after it returns
  the same five bytes. (The modifier has at most 14 characters and \<open>malloc\<close> succeeds.)
\<close>

theorem dump_empty_registry:
  assumes "length (PRINTF_INT64_MODIFIER e) \<le> 14"
  shows "snd (stats_prefix_dump e True now (stats_prefix_init static_registry)) =
           Some (''END'' @ [CHR 0x0D, CHR 0x0A], 5) \<and>
         snd (stats_prefix_dump e True now (stats_prefix_clear s)) =
           Some (''END'' @ [CHR 0x0D, CHR 0x0A], 5) \<and>
         chained (stats_prefix_clear s) = [] \<and>
         num_prefixes (stats_prefix_clear s) = 0 \<and>
         total_prefix_size (stats_prefix_clear s) = 0 \<and>
         wildcard (stats_prefix_clear s) = zero_stats"
proof -
  have t: "terminator = ''END'' @ [CHR 0x0D, CHR 0x0A]"
    by (simp add: terminator_def CRLF_def)
  have c: "num_prefixes (stats_prefix_clear s) = 0"
    "total_prefix_size (stats_prefix_clear s) = 0"
    "wildcard (stats_prefix_clear s) = zero_stats"
    by (simp_all add: stats_prefix_clear_def)
  have w0: "wildcard (stats_prefix_init static_registry) = zero_stats"
    by (simp add: stats_prefix_init_def)
  have c0: "chained (stats_prefix_init static_registry) = []"
    by (simp only: init_static chained_static)
  have "snd (stats_prefix_dump e True now (stats_prefix_init static_registry)) =
        Some (terminator, 5)"
    using assms static_inv c0 w0 by (rule dump_empty)
  moreover have "snd (stats_prefix_dump e True now (stats_prefix_clear s)) =
        Some (terminator, 5)"
    using assms clear_inv chained_clear c(3) by (rule dump_empty)
  ultimately show ?thesis
    using c chained_clear [of s] by (simp only: t)
qed

theorem dump_empty_registry_witness:
  "snd (stats_prefix_dump sample_env True 5
          (stats_prefix_clear
             (stats_prefix_record_set sample_env pool_ok ''abc:123'' static_registry))) =
   Some (''END'' @ [CHR 0x0D, CHR 0x0A], 5)"
proof -
  have "length (PRINTF_INT64_MODIFIER sample_env) \<le> 14"
    by (simp add: sample_env_def)
  from dump_empty_registry [OF this] show ?thesis
    by blast
qed

subsection \<open>A set followed by a dump\<close>

lemma printf_u_0: "printf_u 0 = ''0''"
  by (simp add: printf_u.simps [of 0])

lemma printf_u_1: "printf_u (Suc 0) = ''1''"
  by (simp add: printf_u.simps [of "Suc 0"])

lemma record_set_entry:
  "stats_prefix_find e p key s = (s1, Some pfs) \<Longrightarrow> deref s1 pfs = Some a \<Longrightarrow>
   deref (stats_prefix_record_set e p key s) pfs = Some (set_body a)"
  by (simp add: stats_prefix_record_set_def deref_modify_same)

lemma record_set_abc:
  assumes "prefix_delimiter e = CHR '':''" and "calloc_ok p" and "malloc_ok p"
  shows "stats_prefix_record_set e p ''abc:123'' static_registry =
     static_registry
       \<lparr>prefix_stats :=
          (\<lambda>i. [])(unat (hash e ''abc'') mod PREFIX_HASH_SIZE :=
                     [zero_stats\<lparr>prefix := ''abc'', prefix_len := length ''abc'',
                                 num_sets := 1\<rparr>]),
        num_prefixes := 1, total_prefix_size := word_of_nat (length ''abc'')\<rparr>"
  using assms
  by (simp add: stats_prefix_record_set_def stats_prefix_find_def static_registry_def
      Let_def set_body_def zero_stats_def)

text \<open>
  C5. With \<open>:\<close> as the delimiter and every allocation succeeding: from the registry as the
  program starts it, \<^verbatim>\<open>stats_prefix_record_set\<close> of the key \<open>abc:123\<close> followed by a dump at
  any time returns exactly the line for \<open>abc\<close> with \<open>set 1\<close> and every other number 0,
  then \<open>END\<close>, 97 bytes in all. In general (any collaborators, any key, any state), on the
  entry that \<^verbatim>\<open>stats_prefix_find\<close> returns \<^verbatim>\<open>stats_prefix_record_set\<close> adds 1 to \<open>num_sets\<close>
  and changes no other field, so neither \<open>num_items\<close> nor \<open>num_bytes\<close>.
\<close>

theorem record_set_then_dump:
  assumes "prefix_delimiter e = CHR '':''" and "calloc_ok p" and "malloc_ok p"
    and "length (PRINTF_INT64_MODIFIER e) \<le> 14"
    and "stats_prefix_find e2 p2 key s = (s1, Some pfs)"
  shows "snd (stats_prefix_dump e True now
                (stats_prefix_record_set e p ''abc:123'' (stats_prefix_init static_registry))) =
     Some (''PREFIX abc item 0 get 0 hit 0 set 1 del 0 evict 0 ov 0 exp 0 '' @
           ''bytes 0 txed 0 byte-seconds 0'' @ [CHR 0x0D, CHR 0x0A] @
           ''END'' @ [CHR 0x0D, CHR 0x0A], 97) \<and>
     (\<exists>a. deref s1 pfs = Some a \<and>
          deref (stats_prefix_record_set e2 p2 key s) pfs =
            Some (a\<lparr>num_sets := num_sets a + 1\<rparr>))"
proof
  let ?s = "stats_prefix_record_set e p ''abc:123'' (stats_prefix_init static_registry)"
  let ?h = "unat (hash e ''abc'') mod PREFIX_HASH_SIZE"
  let ?a = "zero_stats\<lparr>prefix := ''abc'', prefix_len := length ''abc'', num_sets := 1\<rparr>"
  have s: "?s = static_registry
       \<lparr>prefix_stats := (\<lambda>i. [])(?h := [?a]),
        num_prefixes := 1, total_prefix_size := word_of_nat (length ''abc'')\<rparr>"
    unfolding init_static using assms(1-3) by (rule record_set_abc)
  have h: "?h < PREFIX_HASH_SIZE"
    by (simp add: PREFIX_HASH_SIZE_def)
  have inv: "registry_inv ?s"
    using static_inv by (rule record_inv)
  have c: "chained ?s = [?a]"
    unfolding s by (simp add: chained_def concat_single_bucket [OF h])
  have w: "wildcard ?s = zero_stats"
    unfolding s by (simp add: static_registry_def)
  have line: "format_prefix_line (prefix_len ?a) (prefix ?a) (dump_flush now ?a) =
     ''PREFIX abc item 0 get 0 hit 0 set 1 del 0 evict 0 ov 0 exp 0 '' @
     ''bytes 0 txed 0 byte-seconds 0'' @ [CHR 0x0D, CHR 0x0A]"
    by (simp add: format_prefix_line_def dump_flush_def zero_stats_def printf_s_def
        printf_u_0 printf_u_1 CRLF_def)
  have "dump_text now ?s =
     ''PREFIX abc item 0 get 0 hit 0 set 1 del 0 evict 0 ov 0 exp 0 '' @
     ''bytes 0 txed 0 byte-seconds 0'' @ [CHR 0x0D, CHR 0x0A] @
     ''END'' @ [CHR 0x0D, CHR 0x0A]"
    unfolding dump_text_def c w entries_text_Cons entries_text_Nil line
    by (simp add: zero_stats_def terminator_def CRLF_def)
  moreover from this have "length (dump_text now ?s) = 97"
    by simp
  moreover have "sint (word_of_nat 97 :: 32 word) = 97"
    by simp
  moreover have "Suc (length (chained ?s)) < 2 ^ 31"
    "sum_list (map prefix_len (chained ?s)) < 2 ^ 31"
    unfolding c by (simp_all add: zero_stats_def)
  ultimately show "snd (stats_prefix_dump e True now ?s) =
     Some (''PREFIX abc item 0 get 0 hit 0 set 1 del 0 evict 0 ov 0 exp 0 '' @
           ''bytes 0 txed 0 byte-seconds 0'' @ [CHR 0x0D, CHR 0x0A] @
           ''END'' @ [CHR 0x0D, CHR 0x0A], 97)"
    using dump_output [OF inv assms(4), of now] by (simp only:)
next
  from find_ptr_valid [OF assms(5)] obtain a where a: "deref s1 pfs = Some a" ..
  with assms(5) have "deref (stats_prefix_record_set e2 p2 key s) pfs = Some (set_body a)"
    by (rule record_set_entry)
  with a show "\<exists>a. deref s1 pfs = Some a \<and>
          deref (stats_prefix_record_set e2 p2 key s) pfs =
            Some (a\<lparr>num_sets := num_sets a + 1\<rparr>)"
    by (simp add: set_body_def)
qed

theorem record_set_then_dump_witness:
  "snd (stats_prefix_dump sample_env True 5
          (stats_prefix_record_set sample_env pool_ok ''abc:123''
             (stats_prefix_init static_registry))) =
     Some (''PREFIX abc item 0 get 0 hit 0 set 1 del 0 evict 0 ov 0 exp 0 '' @
           ''bytes 0 txed 0 byte-seconds 0'' @ [CHR 0x0D, CHR 0x0A] @
           ''END'' @ [CHR 0x0D, CHR 0x0A], 97) \<and>
   (\<exists>a. deref (fst (stats_prefix_find sample_env pool_ok ''abc:123'' static_registry))
           (Chained 7 0) = Some a \<and>
        deref (stats_prefix_record_set sample_env pool_ok ''abc:123'' static_registry)
           (Chained 7 0) = Some (a\<lparr>num_sets := num_sets a + 1\<rparr>))"
proof -
  have d: "prefix_delimiter sample_env = CHR '':''"
    and m: "length (PRINTF_INT64_MODIFIER sample_env) \<le> 14"
    by (simp_all add: sample_env_def)
  have p: "calloc_ok pool_ok" "malloc_ok pool_ok"
    by (simp_all add: pool_ok_def)
  have f: "stats_prefix_find sample_env pool_ok ''abc:123'' static_registry =
        (fst (stats_prefix_find sample_env pool_ok ''abc:123'' static_registry),
         Some (Chained 7 0))"
    by (simp add: stats_prefix_find_def sample_env_def pool_ok_def static_registry_def
        PREFIX_HASH_SIZE_def Let_def)
  from d p m f show ?thesis
    by (rule record_set_then_dump)
qed

end
